theory Spec2Isabelle
  imports
    Complex_Main
    "HOL-Library.FSet"
    "HOL-Library.Multiset"
    "HOL-Library.Word"
    "HOL-Library.Signed_Division"
    "HOL-Library.Log_Nat"
begin

section \<open>Model of \<^verbatim>\<open>tiktok_knn.cpp\<close>\<close>

text \<open>
  The program reads a CSV dataset of videos, computes the Jaccard distance between the
  query tag set and every video's tag set, selects the \<open>K\<close> nearest videos with
  \<^verbatim>\<open>std::nth_element\<close> followed by \<^verbatim>\<open>std::sort\<close> on the prefix, and prints the
  integer averages of their views, likes and comments.

  Conventions of the embedding:
  \<^item> \<^verbatim>\<open>std::unordered_set<std::string>\<close> is a finite set of strings (\<open>string fset\<close>);
  \<^item> \<^verbatim>\<open>size_t\<close> values are sizes of containers held in memory and are natural numbers;
  \<^item> \<^verbatim>\<open>long long\<close> is a 64-bit word read as two's complement; addition wraps around
    (the C++ standard leaves signed overflow undefined; the wrap is what the usual
    targets compute) and division is the truncating signed division;
  \<^item> \<^verbatim>\<open>int\<close> is an integer; the one narrowing conversion in the program,
    \<^verbatim>\<open>static_cast<int>(nbrs.size())\<close>, is written out with its 32-bit wrap-around;
  \<^item> \<^verbatim>\<open>float\<close> is IEEE-754 binary32: a value is the rational number it denotes, and
    every operation rounds the exact result to 24 significant bits, to nearest, ties to
    even. The exponent range is not modelled: with operands that are set sizes, the
    quotients and differences the program forms stay well inside the normal range;
  \<^item> the two library algorithms are parameters of \<open>main\<close>, constrained by the
    postconditions the C++ standard gives them;
  \<^item> a run yields an exit status, the text written to \<^verbatim>\<open>std::cerr\<close> and the items
    written to \<^verbatim>\<open>std::cout\<close>.
\<close>

subsection \<open>binary32 arithmetic\<close>

text \<open>Round to nearest integer, ties to even.\<close>

definition round_even :: "rat \<Rightarrow> int" where
  "round_even y =
     (let f = \<lfloor>y\<rfloor>; r = y - of_int f
      in if r < 1 / 2 then f else if 1 / 2 < r then f + 1 else if even f then f else f + 1)"

text \<open>The binary exponent \<open>e\<close> of a positive rational: \<open>2^e \<le> x < 2^(e+1)\<close>.\<close>

definition ilog2 :: "rat \<Rightarrow> int" where
  "ilog2 x =
     (let (p, q) = quotient_of x; d = bitlen p - bitlen q
      in if 2 powi d \<le> x then d else d - 1)"

text \<open>Rounding of an exact result to a binary32 value (24-bit significand).\<close>

definition f32_round :: "rat \<Rightarrow> rat" where
  "f32_round x =
     (if x = 0 then 0
      else let u = 2 powi (ilog2 \<bar>x\<bar> - 23) in of_int (round_even (x / u)) * u)"

text \<open>\<^verbatim>\<open>static_cast<float>(n)\<close> for a \<^verbatim>\<open>size_t\<close>, and the two float operations used.\<close>

definition f32_of_nat :: "nat \<Rightarrow> rat" where
  "f32_of_nat n = f32_round (of_nat n)"

definition f32_div :: "rat \<Rightarrow> rat \<Rightarrow> rat" where
  "f32_div a b = f32_round (a / b)"

definition f32_sub :: "rat \<Rightarrow> rat \<Rightarrow> rat" where
  "f32_sub a b = f32_round (a - b)"

text \<open>The distance from 1 to the largest binary32 value below it.\<close>

definition eps24 :: rat where
  "eps24 = 1 / 2 ^ 24"

subsection \<open>Data\<close>

type_synonym int64 = "64 word"

record Record =
  id' :: string
  tags :: "string fset"
  views :: int64
  likes :: int64
  comments :: int64

text \<open>\<^verbatim>\<open>struct Node { float dist; size_t idx; }\<close>\<close>

record Node =
  dist' :: rat
  idx :: nat

subsection \<open>\<^verbatim>\<open>std::getline\<close> and \<^verbatim>\<open>split\<close>\<close>

text \<open>
  One call of \<^verbatim>\<open>std::getline(ss, buf, delim)\<close> on a stream whose unread content is
  \<open>ss\<close>: it fails when nothing is left to read; otherwise it yields the characters
  before the first delimiter (or up to the end) and leaves what follows the delimiter.
\<close>

definition getline :: "string \<Rightarrow> char \<Rightarrow> (string \<times> string) option" where
  "getline ss delim =
     (if ss = [] then None
      else Some (takeWhile (\<lambda>c. c \<noteq> delim) ss, drop 1 (dropWhile (\<lambda>c. c \<noteq> delim) ss)))"

text \<open>The buffers produced by \<^verbatim>\<open>while (std::getline(ss, buf, delim))\<close>, in order.\<close>

function getlines :: "string \<Rightarrow> char \<Rightarrow> string list" where
  "getlines ss delim =
     (case getline ss delim of
        None \<Rightarrow> []
      | Some (buf, ss') \<Rightarrow> buf # getlines ss' delim)"
  by pat_completeness auto
termination
proof (relation "measure (\<lambda>(ss, delim). length ss)")
  show "wf (measure (\<lambda>(ss, delim). length ss))" by simp
next
  fix ss :: string and delim :: char and x2 x y
  assume "getline ss delim = Some x2" and "(x, y) = x2"
  then have "ss \<noteq> []" and "y = drop 1 (dropWhile (\<lambda>c. c \<noteq> delim) ss)"
    by (auto simp add: getline_def split: if_splits)
  moreover have "length (dropWhile (\<lambda>c. c \<noteq> delim) ss) \<le> length ss"
    by (rule length_dropWhile_le)
  ultimately have "length y < length ss"
    by (cases "dropWhile (\<lambda>c. c \<noteq> delim) ss") (auto simp add: dropWhile_eq_Nil_conv)
  then show "((y, delim), ss, delim) \<in> measure (\<lambda>(ss, delim). length ss)"
    by simp
qed

declare getlines.simps [simp del]

text \<open>The body of the loop in \<^verbatim>\<open>split\<close>: only non-empty buffers are pushed.\<close>

fun split_loop :: "string list \<Rightarrow> string list \<Rightarrow> string list" where
  "split_loop [] out = out"
| "split_loop (buf # bufs) out = split_loop bufs (if buf \<noteq> [] then out @ [buf] else out)"

definition split :: "string \<Rightarrow> char \<Rightarrow> string list" where
  "split s delim = split_loop (getlines s delim) []"

subsection \<open>\<^verbatim>\<open>jaccard\<close>\<close>

text \<open>
  \<open>inter\<close> counts the elements of \<open>A\<close> that \<open>B\<close> contains; the guard on the first line
  is what keeps \<open>uni\<close> away from zero.
\<close>

definition jaccard :: "string fset \<Rightarrow> string fset \<Rightarrow> rat" where
  "jaccard A B =
     (if A = {||} \<and> B = {||} then 0
      else let inter = fcard (ffilter (\<lambda>t. t |\<in>| B) A);
               uni = fcard A + fcard B - inter
           in f32_sub 1 (f32_div (f32_of_nat inter) (f32_of_nat uni)))"

subsection \<open>\<^verbatim>\<open>std::stoll\<close>\<close>

datatype exn = Invalid_argument | Out_of_range

definition isspace :: "char \<Rightarrow> bool" where
  "isspace c = (c = CHR '' '' \<or> (9 \<le> (of_char c :: nat) \<and> (of_char c :: nat) \<le> 13))"

definition isdigit :: "char \<Rightarrow> bool" where
  "isdigit c = (48 \<le> (of_char c :: nat) \<and> (of_char c :: nat) \<le> 57)"

fun digits_value :: "string \<Rightarrow> nat \<Rightarrow> nat" where
  "digits_value [] acc = acc"
| "digits_value (c # cs) acc = digits_value cs (acc * 10 + (of_char c - 48))"

text \<open>
  Base-10 \<^verbatim>\<open>std::stoll\<close>: leading white space is skipped, an optional sign is read,
  then the longest run of digits; what follows is ignored. No digit at all throws
  \<^verbatim>\<open>std::invalid_argument\<close>, a value outside \<^verbatim>\<open>long long\<close> throws
  \<^verbatim>\<open>std::out_of_range\<close>.
\<close>

definition stoll :: "string \<Rightarrow> exn + int64" where
  "stoll str =
     (let s = dropWhile isspace str;
          neg = (s \<noteq> [] \<and> hd s = CHR ''-'');
          s' = (if s \<noteq> [] \<and> (hd s = CHR ''-'' \<or> hd s = CHR ''+'') then tl s else s);
          ds = takeWhile isdigit s'
      in if ds = [] then Inl Invalid_argument
         else let v = (if neg then - int (digits_value ds 0) else int (digits_value ds 0))
              in if v < - (2 ^ 63) \<or> 2 ^ 63 \<le> v then Inl Out_of_range
                 else Inr (word_of_int v))"

subsection \<open>Loading the dataset\<close>

text \<open>The body of the row loop of \<open>main\<close>, over the lines that \<^verbatim>\<open>std::getline\<close> yields.\<close>

fun load_loop :: "string list \<Rightarrow> Record list \<Rightarrow> exn + Record list" where
  "load_loop [] videos = Inr videos"
| "load_loop (line # rest) videos =
     (if line = [] then load_loop rest videos
      else let cols = split line CHR '','' in
        if length cols < 5 then load_loop rest videos
        else
          case stoll (cols ! 2) of Inl e \<Rightarrow> Inl e | Inr v \<Rightarrow>
          case stoll (cols ! 3) of Inl e \<Rightarrow> Inl e | Inr l \<Rightarrow>
          case stoll (cols ! 4) of Inl e \<Rightarrow> Inl e | Inr c \<Rightarrow>
            load_loop rest
              (videos @ [\<lparr>id' = cols ! 0, tags = fset_of_list (split (cols ! 1) CHR '';''),
                          views = v, likes = l, comments = c\<rparr>]))"

text \<open>
  A dataset that \<^verbatim>\<open>std::ifstream\<close> has opened: its bytes, and whether the stream can
  be repositioned. A regular file can; a pipe, a FIFO or a terminal (for instance
  \<^verbatim>\<open>/dev/stdin\<close> fed by another process) opens and reads like a file but cannot.
\<close>

datatype source = File string | Pipe string

fun bytes :: "source \<Rightarrow> string" where
  "bytes (File content) = content"
| "bytes (Pipe content) = content"

fun seekable :: "source \<Rightarrow> bool" where
  "seekable (File content) = True"
| "seekable (Pipe content) = False"

text \<open>
  Header detection: the lines the row loop gets to see. After the first
  \<^verbatim>\<open>std::getline\<close> the stream either continues behind the header, or
  \<^verbatim>\<open>fin.seekg(0)\<close> is called and its result is not looked at. On a stream that can
  seek, the row loop starts again at the first byte. On one that cannot, the call sets
  \<^verbatim>\<open>failbit\<close>, so the first \<^verbatim>\<open>std::getline\<close> of the row loop fails and the loop sees no
  line at all.
\<close>

definition data_lines :: "source \<Rightarrow> string list" where
  "data_lines src =
     (let line = (case getline (bytes src) CHR 0x0A of None \<Rightarrow> [] | Some (l, r) \<Rightarrow> l);
          fin = (case getline (bytes src) CHR 0x0A of None \<Rightarrow> bytes src | Some (l, r) \<Rightarrow> r)
      in if line \<noteq> [] \<and> \<not> isdigit (hd line) then getlines fin CHR 0x0A
         else if seekable src then getlines (bytes src) CHR 0x0A
         else [])"

definition load :: "source \<Rightarrow> exn + Record list" where
  "load src = load_loop (data_lines src) []"

text \<open>
  The rows of a dataset as the file holds them: all its lines, without the first one
  when that is a header (not empty, first character not a digit).
\<close>

definition file_rows :: "string \<Rightarrow> string list" where
  "file_rows content =
     (case getlines content CHR 0x0A of
        [] \<Rightarrow> []
      | l # ls \<Rightarrow> if l \<noteq> [] \<and> \<not> isdigit (hd l) then ls else l # ls)"

text \<open>A row that passes both filters of the row loop: not empty, and five fields or more.\<close>

definition usable :: "string \<Rightarrow> bool" where
  "usable line = (line \<noteq> [] \<and> 5 \<le> length (split line CHR '',''))"

text \<open>
  \<open>built_from r line\<close>: the Record \<open>r\<close> is what the row loop builds from the row
  \<open>line\<close>, out of its first five non-empty fields.
\<close>

definition built_from :: "Record \<Rightarrow> string \<Rightarrow> bool" where
  "built_from r line =
     (let cols = split line CHR '','' in
        line \<noteq> [] \<and> 5 \<le> length cols \<and>
        id' r = cols ! 0 \<and>
        tags r = fset_of_list (split (cols ! 1) CHR '';'') \<and>
        stoll (cols ! 2) = Inr (views r) \<and>
        stoll (cols ! 3) = Inr (likes r) \<and>
        stoll (cols ! 4) = Inr (comments r))"

subsection \<open>Neighbours and selection\<close>

text \<open>The comparator passed to both library algorithms.\<close>

definition node_less :: "Node \<Rightarrow> Node \<Rightarrow> bool" where
  "node_less a b = (dist' a < dist' b)"

definition compute_nbrs :: "string fset \<Rightarrow> Record list \<Rightarrow> Node list" where
  "compute_nbrs qTags videos =
     map (\<lambda>i. \<lparr>dist' = jaccard qTags (tags (videos ! i)), idx = i\<rparr>) [0..<length videos]"

text \<open>\<^verbatim>\<open>static_cast<int>(n)\<close> for a \<^verbatim>\<open>size_t\<close> \<open>n\<close>: the low 32 bits, read as signed.\<close>

definition int_of_size :: "nat \<Rightarrow> int" where
  "int_of_size n = sint (word_of_nat n :: 32 word)"

definition clamp_K :: "int \<Rightarrow> nat \<Rightarrow> int" where
  "clamp_K K n = (if K > int_of_size n then int_of_size n else K)"

text \<open>
  What the C++ standard promises of \<^verbatim>\<open>std::nth_element(first, first + k, last, cmp)\<close>
  and of \<^verbatim>\<open>std::sort(first, last, cmp)\<close>: the range is permuted; after
  \<^verbatim>\<open>nth_element\<close> no element from position \<open>k\<close> on is smaller than one before
  position \<open>k\<close>; after \<^verbatim>\<open>sort\<close> no element is smaller than an earlier one.
\<close>

definition nth_element_post :: "('a \<Rightarrow> 'a \<Rightarrow> bool) \<Rightarrow> nat \<Rightarrow> 'a list \<Rightarrow> 'a list \<Rightarrow> bool" where
  "nth_element_post cmp k xs ys =
     (mset ys = mset xs \<and> (\<forall>a \<in> set (take k ys). \<forall>b \<in> set (drop k ys). \<not> cmp b a))"

definition sort_post :: "('a \<Rightarrow> 'a \<Rightarrow> bool) \<Rightarrow> 'a list \<Rightarrow> 'a list \<Rightarrow> bool" where
  "sort_post cmp xs ys = (mset ys = mset xs \<and> sorted_wrt (\<lambda>a b. \<not> cmp b a) ys)"

definition nth_element_ok :: "((Node \<Rightarrow> Node \<Rightarrow> bool) \<Rightarrow> nat \<Rightarrow> Node list \<Rightarrow> Node list) \<Rightarrow> bool" where
  "nth_element_ok nth_element =
     (\<forall>k xs. k \<le> length xs \<longrightarrow> nth_element_post node_less k xs (nth_element node_less k xs))"

definition sort_ok :: "((Node \<Rightarrow> Node \<Rightarrow> bool) \<Rightarrow> Node list \<Rightarrow> Node list) \<Rightarrow> bool" where
  "sort_ok sort' = (\<forall>xs. sort_post node_less xs (sort' node_less xs))"

datatype ub = Iterator_out_of_range | Index_out_of_range | Division_by_zero

text \<open>
  Clamping of \<open>K\<close> and the two library calls. The result is the clamped \<open>K\<close> and the
  rearranged vector; the iterator \<^verbatim>\<open>nbrs.begin() + K\<close> must lie inside the vector.
\<close>

definition select_top_k ::
  "((Node \<Rightarrow> Node \<Rightarrow> bool) \<Rightarrow> nat \<Rightarrow> Node list \<Rightarrow> Node list) \<Rightarrow>
   ((Node \<Rightarrow> Node \<Rightarrow> bool) \<Rightarrow> Node list \<Rightarrow> Node list) \<Rightarrow>
   int \<Rightarrow> Node list \<Rightarrow> ub + (int \<times> Node list)" where
  "select_top_k nth_element sort' K nbrs =
     (let K' = clamp_K K (length nbrs)
      in if K' < 0 \<or> int (length nbrs) < K' then Inl Iterator_out_of_range
         else let nbrs1 = nth_element node_less (nat K') nbrs;
                  nbrs2 = sort' node_less (take (nat K') nbrs1) @ drop (nat K') nbrs1
              in Inr (K', nbrs2))"

subsection \<open>Aggregation and report\<close>

text \<open>\<^verbatim>\<open>v[i]\<close> on a vector: reading past the end is undefined behaviour.\<close>

definition elem_at :: "'a list \<Rightarrow> nat \<Rightarrow> ub + 'a" where
  "elem_at xs i = (if i < length xs then Inr (xs ! i) else Inl Index_out_of_range)"

text \<open>The summation loop, over the values \<open>i = 0, \<dots>, K - 1\<close>.\<close>

fun aggregate_loop ::
  "nat list \<Rightarrow> Node list \<Rightarrow> Record list \<Rightarrow> int64 \<times> int64 \<times> int64 \<Rightarrow> ub + (int64 \<times> int64 \<times> int64)" where
  "aggregate_loop [] nbrs videos acc = Inr acc"
| "aggregate_loop (i # rest) nbrs videos (sumViews, sumLikes, sumComments) =
     (case elem_at nbrs i of Inl e \<Rightarrow> Inl e | Inr n \<Rightarrow>
      case elem_at videos (idx n) of Inl e \<Rightarrow> Inl e | Inr v \<Rightarrow>
        aggregate_loop rest nbrs videos
          (sumViews + views v, sumLikes + likes v, sumComments + comments v))"

text \<open>\<^verbatim>\<open>sum / K\<close> with \<open>K\<close> converted to \<^verbatim>\<open>long long\<close>: truncating division.\<close>

definition div_K :: "int64 \<Rightarrow> int \<Rightarrow> int64" where
  "div_K s K = word_of_int (sint s sdiv K)"

definition aggregate ::
  "int \<Rightarrow> Node list \<Rightarrow> Record list \<Rightarrow> ub + (int64 \<times> int64 \<times> int64)" where
  "aggregate K nbrs videos =
     (case aggregate_loop [0..<nat K] nbrs videos (0, 0, 0) of
        Inl e \<Rightarrow> Inl e
      | Inr (sumViews, sumLikes, sumComments) \<Rightarrow>
          if K = 0 then Inl Division_by_zero
          else Inr (div_K sumViews K, div_K sumLikes K, div_K sumComments K))"

text \<open>The Records that the aggregation and report loops visit, in order.\<close>

definition selected :: "int \<Rightarrow> Node list \<Rightarrow> Record list \<Rightarrow> Record list" where
  "selected K nbrs videos = map (\<lambda>n. videos ! idx n) (take (nat K) nbrs)"

datatype out_item =
    Predicted int64 int64 int64
  | Top int
  | Neighbour nat string rat int64 int64 int64

text \<open>The report loop: one line per selected neighbour, numbered from 1.\<close>

fun report_loop ::
  "nat list \<Rightarrow> Node list \<Rightarrow> Record list \<Rightarrow> out_item list \<Rightarrow> ub option \<times> out_item list" where
  "report_loop [] nbrs videos out = (None, out)"
| "report_loop (i # rest) nbrs videos out =
     (case elem_at nbrs i of Inl e \<Rightarrow> (Some e, out) | Inr n \<Rightarrow>
      case elem_at videos (idx n) of Inl e \<Rightarrow> (Some e, out) | Inr v \<Rightarrow>
        report_loop rest nbrs videos
          (out @ [Neighbour (i + 1) (id' v) (dist' n) (views v) (likes v) (comments v)]))"

subsection \<open>\<^verbatim>\<open>main\<close>\<close>

datatype message =
    Usage
  | K_must_be_positive
  | Cannot_open_dataset
  | Dataset_empty_or_malformed
  | Provide_at_least_one_tag

text \<open>
  How a run ends: \<^verbatim>\<open>return\<close> from \<open>main\<close>, \<^verbatim>\<open>std::terminate\<close> after an exception
  nobody catches, or undefined behaviour.
\<close>

datatype exit_status = Return int | Terminate exn | Undefined ub

record outcome =
  status :: exit_status
  cerr :: "message list"
  cout :: "out_item list"

text \<open>
  Steps 3 to 5 of \<open>main\<close>: distances, selection, aggregation and report, for a
  non-empty query tag set and the loaded videos.
\<close>

definition steps_3_to_5 ::
  "((Node \<Rightarrow> Node \<Rightarrow> bool) \<Rightarrow> nat \<Rightarrow> Node list \<Rightarrow> Node list) \<Rightarrow>
   ((Node \<Rightarrow> Node \<Rightarrow> bool) \<Rightarrow> Node list \<Rightarrow> Node list) \<Rightarrow>
   int \<Rightarrow> string fset \<Rightarrow> Record list \<Rightarrow> outcome" where
  "steps_3_to_5 nth_element sort' K qTags videos =
     (let nbrs = compute_nbrs qTags videos in
      case select_top_k nth_element sort' K nbrs of
        Inl e \<Rightarrow> \<lparr>status = Undefined e, cerr = [], cout = []\<rparr>
      | Inr (K', nbrs') \<Rightarrow>
         (case aggregate K' nbrs' videos of
            Inl e \<Rightarrow> \<lparr>status = Undefined e, cerr = [], cout = []\<rparr>
          | Inr (pViews, pLikes, pComments) \<Rightarrow>
             (case report_loop [0..<nat K'] nbrs' videos
                     [Predicted pViews pLikes pComments, Top K'] of
                (Some e, out) \<Rightarrow> \<lparr>status = Undefined e, cerr = [], cout = out\<rparr>
              | (None, out) \<Rightarrow> \<lparr>status = Return 0, cerr = [], cout = out\<rparr>)))"

text \<open>
  \<open>argc\<close> is the argument count, \<open>K\<close> the value of \<^verbatim>\<open>std::atoi(argv[1])\<close>,
  \<open>dataset\<close> the source named by \<^verbatim>\<open>argv[2]\<close> (\<open>None\<close> when it cannot
  be opened) and \<open>query\<close> is \<^verbatim>\<open>argv[3]\<close>. An exception thrown while loading is not
  caught.
\<close>

definition main ::
  "((Node \<Rightarrow> Node \<Rightarrow> bool) \<Rightarrow> nat \<Rightarrow> Node list \<Rightarrow> Node list) \<Rightarrow>
   ((Node \<Rightarrow> Node \<Rightarrow> bool) \<Rightarrow> Node list \<Rightarrow> Node list) \<Rightarrow>
   nat \<Rightarrow> int \<Rightarrow> source option \<Rightarrow> string \<Rightarrow> outcome" where
  "main nth_element sort' argc K dataset query =
     (if argc \<noteq> 4 then \<lparr>status = Return 1, cerr = [Usage], cout = []\<rparr>
      else if K \<le> 0 then \<lparr>status = Return 1, cerr = [K_must_be_positive], cout = []\<rparr>
      else case dataset of
        None \<Rightarrow> \<lparr>status = Return 1, cerr = [Cannot_open_dataset], cout = []\<rparr>
      | Some src \<Rightarrow>
         (case load src of
            Inl e \<Rightarrow> \<lparr>status = Terminate e, cerr = [], cout = []\<rparr>
          | Inr videos \<Rightarrow>
              if videos = []
              then \<lparr>status = Return 1, cerr = [Dataset_empty_or_malformed], cout = []\<rparr>
              else let qTags = fset_of_list (split query CHR '';'') in
                if qTags = {||}
                then \<lparr>status = Return 1, cerr = [Provide_at_least_one_tag], cout = []\<rparr>
                else steps_3_to_5 nth_element sort' K qTags videos))"

text \<open>
  The error taxonomy of the specification, by the message the program prints: a
  non-positive \<open>K\<close> and an empty query are \<open>InvalidArgument\<close>; a dataset that cannot be
  opened or holds no usable record is \<open>LoadError\<close>.
\<close>

datatype error_class = InvalidArgument | LoadError

fun error_class_of :: "message \<Rightarrow> error_class option" where
  "error_class_of Usage = None"
| "error_class_of K_must_be_positive = Some InvalidArgument"
| "error_class_of Cannot_open_dataset = Some LoadError"
| "error_class_of Dataset_empty_or_malformed = Some LoadError"
| "error_class_of Provide_at_least_one_tag = Some InvalidArgument"

subsection \<open>Reference implementations of the library algorithms\<close>

text \<open>
  An insertion sort by the comparator. It meets both postconditions above, so the
  assumptions made of the library are satisfiable, and it is used to run the model on
  concrete inputs.
\<close>

fun insert_by :: "('a \<Rightarrow> 'a \<Rightarrow> bool) \<Rightarrow> 'a \<Rightarrow> 'a list \<Rightarrow> 'a list" where
  "insert_by cmp x [] = [x]"
| "insert_by cmp x (y # ys) = (if cmp x y then x # y # ys else y # insert_by cmp x ys)"

fun isort_by :: "('a \<Rightarrow> 'a \<Rightarrow> bool) \<Rightarrow> 'a list \<Rightarrow> 'a list" where
  "isort_by cmp [] = []"
| "isort_by cmp (x # xs) = insert_by cmp x (isort_by cmp xs)"

definition ref_nth_element :: "('a \<Rightarrow> 'a \<Rightarrow> bool) \<Rightarrow> nat \<Rightarrow> 'a list \<Rightarrow> 'a list" where
  "ref_nth_element cmp k xs = isort_by cmp xs"

definition ref_sort :: "('a \<Rightarrow> 'a \<Rightarrow> bool) \<Rightarrow> 'a list \<Rightarrow> 'a list" where
  "ref_sort cmp xs = isort_by cmp xs"

text \<open>A set of \<open>n\<close> distinct tags: \<open>t\<close>, \<open>tt\<close>, \<open>ttt\<close>, and so on.\<close>

definition tags_upto :: "nat \<Rightarrow> string fset" where
  "tags_upto n = (\<lambda>i. replicate (Suc i) CHR ''t'') |`| fset_of_list [0..<n]"

subsection \<open>The scenario of the specification\<close>

text \<open>The three Records of the worked example, and a CSV file that holds them.\<close>

definition example_videos :: "Record list" where
  "example_videos =
     [\<lparr>id' = ''A'', tags = {|''cat'', ''dance''|}, views = 100, likes = 10, comments = 1\<rparr>,
      \<lparr>id' = ''B'', tags = {|''cat''|}, views = 200, likes = 20, comments = 2\<rparr>,
      \<lparr>id' = ''C'', tags = {|''dog''|}, views = 50, likes = 5, comments = 0\<rparr>]"

definition example_csv :: string where
  "example_csv =
     ''id,tags,views,likes,comments'' @ [CHR 0x0A] @
     ''A,cat;dance,100,10,1'' @ [CHR 0x0A] @
     ''B,cat,200,20,2'' @ [CHR 0x0A] @
     ''C,dog,50,5,0'' @ [CHR 0x0A]"

section \<open>Properties of the binary32 rounding\<close>

lemma bitlen_rat_bounds:
  assumes "0 < p"
  shows "(2::rat) powi (bitlen p - 1) \<le> of_int p" and "of_int p < (2::rat) powi (bitlen p)"
proof -
  from bitlen_bounds[OF assms] have a: "2 ^ nat (bitlen p - 1) \<le> p" and b: "p < 2 ^ nat (bitlen p)"
    by auto
  have ge1: "1 \<le> bitlen p" using assms by (simp add: bitlen_alt_def)
  have "(of_int (2 ^ nat (bitlen p - 1)) :: rat) \<le> of_int p" using a by (simp only: of_int_le_iff)
  then show "(2::rat) powi (bitlen p - 1) \<le> of_int p"
    using ge1 by (simp add: power_int_def)
  have "(of_int p :: rat) < of_int (2 ^ nat (bitlen p))" using b by (simp only: of_int_less_iff)
  then show "of_int p < (2::rat) powi (bitlen p)"
    using ge1 by (simp add: power_int_def)
qed

lemma ilog2_bounds:
  assumes "0 < x"
  shows "2 powi (ilog2 x) \<le> x" and "x < 2 powi (ilog2 x + 1)"
proof -
  obtain p q where pq: "quotient_of x = (p, q)" by force
  have q: "0 < q" using quotient_of_denom_pos[OF pq] .
  have x: "x = of_int p / of_int q" using quotient_of_div[OF pq] .
  have p: "0 < p" using assms q x by (simp add: zero_less_divide_iff)
  define d where "d = bitlen p - bitlen q"
  have il: "ilog2 x = (if 2 powi d \<le> x then d else d - 1)"
    by (simp add: ilog2_def pq d_def Let_def)
  have lo: "2 powi (d - 1) \<le> x"
  proof -
    have "(2::rat) powi (d - 1) = 2 powi (bitlen p - 1) / 2 powi (bitlen q)"
      by (simp add: d_def power_int_diff)
    also have "\<dots> \<le> of_int p / of_int q"
      using bitlen_rat_bounds[OF p] bitlen_rat_bounds[OF q] q p
      by (intro frac_le) auto
    finally show ?thesis by (simp add: x)
  qed
  have hi: "x < 2 powi (d + 1)"
  proof -
    have "of_int p / of_int q < (2::rat) powi (bitlen p) / 2 powi (bitlen q - 1)"
      using bitlen_rat_bounds[OF p] bitlen_rat_bounds[OF q] q p
      by (intro frac_less) auto
    also have "\<dots> = 2 powi (d + 1)"
      by (simp add: d_def power_int_diff power_int_add)
    finally show ?thesis by (simp add: x)
  qed
  show "2 powi (ilog2 x) \<le> x" using lo by (simp add: il)
  show "x < 2 powi (ilog2 x + 1)" using hi
    by (auto simp add: il not_le)
qed

lemma powi2_mono: "a \<le> b \<Longrightarrow> (2::rat) powi a \<le> 2 powi b"
  by (rule power_int_increasing) auto

lemma powi2_less_cancel: "(2::rat) powi a < 2 powi b \<Longrightarrow> a < b"
  using powi2_mono[of b a] by (cases "a < b") auto

lemma ilog2_eqI:
  assumes "2 powi e \<le> x" and "x < 2 powi (e + 1)"
  shows "ilog2 x = e"
proof -
  have pos: "0 < x" using assms(1) by (meson less_le_trans zero_less_numeral zero_less_power_int)
  note b = ilog2_bounds[OF pos]
  have "2 powi e < (2::rat) powi (ilog2 x + 1)" using assms(1) b(2) by simp
  then have 1: "e < ilog2 x + 1" by (rule powi2_less_cancel)
  have "2 powi (ilog2 x) < (2::rat) powi (e + 1)" using assms(2) b(1) by simp
  then have 2: "ilog2 x < e + 1" by (rule powi2_less_cancel)
  from 1 2 show ?thesis by simp
qed

lemma round_even_of_int [simp]: "round_even (of_int n) = n"
  by (simp add: round_even_def)

lemma round_even_bounds: "\<lfloor>y\<rfloor> \<le> round_even y" "round_even y \<le> \<lfloor>y\<rfloor> + 1"
  by (simp_all add: round_even_def Let_def)

lemma round_even_mono:
  assumes "y \<le> z"
  shows "round_even y \<le> round_even z"
proof (cases "\<lfloor>y\<rfloor> = \<lfloor>z\<rfloor>")
  case True
  then show ?thesis using assms by (auto simp add: round_even_def Let_def)
next
  case False
  then have "\<lfloor>y\<rfloor> + 1 \<le> \<lfloor>z\<rfloor>" using floor_mono[OF assms] by simp
  then show ?thesis using round_even_bounds(2)[of y] round_even_bounds(1)[of z] by linarith
qed

lemma ilog2_mono:
  assumes "0 < x" "x \<le> y"
  shows "ilog2 x \<le> ilog2 y"
proof -
  have "0 < y" using assms by simp
  have "2 powi (ilog2 x) < (2::rat) powi (ilog2 y + 1)"
    using ilog2_bounds(1)[OF assms(1)] ilog2_bounds(2)[OF \<open>0 < y\<close>] assms(2) by linarith
  then show ?thesis using powi2_less_cancel by fastforce
qed

lemma powi2_pos [simp]: "0 < (2::rat) powi a"
  by simp

lemma f32_round_pos_eq:
  "0 < x \<Longrightarrow> f32_round x = of_int (round_even (x / 2 powi (ilog2 x - 23))) * 2 powi (ilog2 x - 23)"
  by (simp add: f32_round_def Let_def)

lemma scaled_bounds:
  assumes "0 < x"
  shows "2 ^ 23 \<le> x / 2 powi (ilog2 x - 23)" and "x / 2 powi (ilog2 x - 23) < 2 ^ 24"
proof -
  have a: "(2::rat) powi (ilog2 x) = 2 ^ 23 * 2 powi (ilog2 x - 23)"
    by (simp add: power_int_diff)
  have b: "(2::rat) powi (ilog2 x + 1) = 2 ^ 24 * 2 powi (ilog2 x - 23)"
    by (simp add: power_int_diff power_int_add)
  show "2 ^ 23 \<le> x / 2 powi (ilog2 x - 23)"
    using ilog2_bounds(1)[OF assms] unfolding a by (simp add: pos_le_divide_eq)
  show "x / 2 powi (ilog2 x - 23) < 2 ^ 24"
    using ilog2_bounds(2)[OF assms] unfolding b by (simp add: pos_divide_less_eq)
qed

lemma f32_round_binade:
  assumes "0 < x"
  shows "2 powi (ilog2 x) \<le> f32_round x" and "f32_round x \<le> 2 powi (ilog2 x + 1)"
proof -
  let ?u = "(2::rat) powi (ilog2 x - 23)"
  have "round_even (2 ^ 23) \<le> round_even (x / ?u)"
    using scaled_bounds(1)[OF assms] by (rule round_even_mono)
  moreover have "round_even (of_int (2 ^ 23)) = 2 ^ 23" by (rule round_even_of_int)
  ultimately have lo: "2 ^ 23 \<le> round_even (x / ?u)" by simp
  have "round_even (x / ?u) \<le> round_even (2 ^ 24)"
    using scaled_bounds(2)[OF assms] by (intro round_even_mono) simp
  moreover have "round_even (of_int (2 ^ 24)) = 2 ^ 24" by (rule round_even_of_int)
  ultimately have hi: "round_even (x / ?u) \<le> 2 ^ 24" by simp
  have a: "(2::rat) powi (ilog2 x) = 2 ^ 23 * ?u"
    by (simp add: power_int_diff)
  have b: "(2::rat) powi (ilog2 x + 1) = 2 ^ 24 * ?u"
    by (simp add: power_int_diff power_int_add)
  have "(2 ^ 23 :: rat) \<le> of_int (round_even (x / ?u))"
    using lo by (metis of_int_le_iff of_int_numeral of_int_power)
  then show "2 powi (ilog2 x) \<le> f32_round x"
    unfolding a f32_round_pos_eq[OF assms] by (simp add: mult_right_mono)
  have "of_int (round_even (x / ?u)) \<le> (2 ^ 24 :: rat)"
    using hi by (metis of_int_le_iff of_int_numeral of_int_power)
  then show "f32_round x \<le> 2 powi (ilog2 x + 1)"
    unfolding b f32_round_pos_eq[OF assms] by (simp add: mult_right_mono)
qed

lemma f32_round_0 [simp]: "f32_round 0 = 0"
  by (simp add: f32_round_def)

lemma f32_round_pos: "0 < x \<Longrightarrow> 0 < f32_round x"
  using f32_round_binade(1)[of x] powi2_pos[of "ilog2 x"] by linarith

lemma f32_round_mono_pos:
  assumes "0 < x" "x \<le> y"
  shows "f32_round x \<le> f32_round y"
proof -
  have y: "0 < y" using assms by simp
  show ?thesis
  proof (cases "ilog2 x = ilog2 y")
    case True
    let ?u = "(2::rat) powi (ilog2 y - 23)"
    have "x / ?u \<le> y / ?u" using assms(2) by (simp add: divide_right_mono)
    then have "round_even (x / ?u) \<le> round_even (y / ?u)" by (rule round_even_mono)
    then have "(of_int (round_even (x / ?u)) :: rat) \<le> of_int (round_even (y / ?u))" by simp
    then show ?thesis
      unfolding f32_round_pos_eq[OF assms(1)] f32_round_pos_eq[OF y] True
      by (simp add: mult_right_mono)
  next
    case False
    then have "ilog2 x + 1 \<le> ilog2 y" using ilog2_mono[OF assms] by simp
    then have "(2::rat) powi (ilog2 x + 1) \<le> 2 powi (ilog2 y)" by (rule powi2_mono)
    then show ?thesis
      using f32_round_binade(2)[OF assms(1)] f32_round_binade(1)[OF y] by linarith
  qed
qed

lemma f32_round_mono:
  assumes "0 \<le> x" "x \<le> y"
  shows "f32_round x \<le> f32_round y"
proof (cases "x = 0")
  case True
  then show ?thesis using assms f32_round_pos[of y] by (cases "y = 0") auto
next
  case False
  then show ?thesis using assms f32_round_mono_pos by simp
qed

lemma f32_round_exact:
  assumes "0 < m" "m < 2 ^ 24"
  shows "f32_round (of_int m * 2 powi j) = of_int m * 2 powi j"
proof -
  define x :: rat where "x = of_int m * 2 powi j"
  define e where "e = ilog2 x - 23"
  have x: "0 < x" using assms(1) by (simp add: x_def)
  have "of_int m < (2 ^ 24 :: rat)"
    using assms(2) by (metis of_int_less_iff of_int_numeral of_int_power)
  then have "x < 2 ^ 24 * 2 powi j"
    unfolding x_def by (intro mult_strict_right_mono) simp_all
  also have "\<dots> = 2 powi (j + 24)" by (simp add: power_int_add)
  finally have "2 powi (ilog2 x) < (2::rat) powi (j + 24)"
    using ilog2_bounds(1)[OF x] by linarith
  then have "ilog2 x < j + 24" by (rule powi2_less_cancel)
  then have "0 \<le> j - e" by (simp add: e_def)
  then obtain k :: nat where "j - e = int k"
    using nonneg_int_cases by blast
  then have k: "j = e + int k" by simp
  have pk: "(2::rat) powi j = 2 ^ k * 2 powi e"
    unfolding k by (simp add: power_int_add)
  have "x / 2 powi e = of_int (m * 2 ^ k)"
    unfolding x_def pk by simp
  then have "round_even (x / 2 powi e) = m * 2 ^ k"
    by (simp only: round_even_of_int)
  then have "f32_round x = of_int (m * 2 ^ k) * 2 powi e"
    unfolding f32_round_pos_eq[OF x] e_def by simp
  also have "\<dots> = of_int m * (2 ^ k * 2 powi e)" by simp
  also have "\<dots> = x" unfolding x_def pk ..
  finally show ?thesis unfolding x_def .
qed

lemma f32_round_of_nat_exact:
  assumes "n \<le> 2 ^ 24"
  shows "f32_round (of_nat n) = of_nat n"
proof -
  consider "n = 0" | "0 < n" "n < 2 ^ 24" | "n = 2 ^ 24" using assms by linarith
  then show ?thesis
  proof cases
    case 1 then show ?thesis by simp
  next
    case 2
    then have "f32_round (of_int (int n) * 2 powi 0) = of_int (int n) * 2 powi 0"
      by (intro f32_round_exact) auto
    then show ?thesis by simp
  next
    case 3
    have "f32_round (of_int 1 * 2 powi 24) = of_int 1 * 2 powi 24"
      by (intro f32_round_exact) auto
    then show ?thesis by (simp add: 3)
  qed
qed

section \<open>Properties of \<^verbatim>\<open>jaccard\<close>\<close>

lemma inter_eq: "ffilter (\<lambda>t. t |\<in>| B) A = A |\<inter>| B"
  by auto

lemma jaccard_alt:
  "jaccard A B =
     (if A = {||} \<and> B = {||} then 0
      else f32_sub 1 (f32_div (f32_of_nat (fcard (A |\<inter>| B))) (f32_of_nat (fcard (A |\<union>| B)))))"
proof -
  have "fcard (A |\<union>| B) = fcard A + fcard B - fcard (A |\<inter>| B)"
    using fcard_funion_finter[of A B] by simp
  then show ?thesis by (simp add: jaccard_def inter_eq Let_def)
qed

lemma f32_round_1 [simp]: "f32_round 1 = 1"
  using f32_round_of_nat_exact[of 1] by simp

lemma f32_round_nonneg: "0 \<le> x \<Longrightarrow> 0 \<le> f32_round x"
  using f32_round_mono[of 0 x] by simp

lemma f32_round_le_1: "0 \<le> x \<Longrightarrow> x \<le> 1 \<Longrightarrow> f32_round x \<le> 1"
  using f32_round_mono[of x 1] by simp

lemma f32_round_eq_0_iff: "0 \<le> x \<Longrightarrow> f32_round x = 0 \<longleftrightarrow> x = 0"
  using f32_round_pos[of x] by (cases "x = 0") auto

lemma quotient_bounds:
  assumes "i \<le> u" "0 < u"
  shows "0 \<le> f32_div (f32_of_nat i) (f32_of_nat u)" "f32_div (f32_of_nat i) (f32_of_nat u) \<le> 1"
proof -
  have u: "0 < f32_of_nat u" unfolding f32_of_nat_def using assms(2) by (intro f32_round_pos) simp
  have i: "0 \<le> f32_of_nat i" unfolding f32_of_nat_def by (intro f32_round_nonneg) simp
  have le: "f32_of_nat i \<le> f32_of_nat u"
    unfolding f32_of_nat_def using assms(1) by (intro f32_round_mono) simp_all
  have r: "0 \<le> f32_of_nat i / f32_of_nat u" "f32_of_nat i / f32_of_nat u \<le> 1"
    using u i le by simp_all
  show "0 \<le> f32_div (f32_of_nat i) (f32_of_nat u)"
    unfolding f32_div_def using r by (intro f32_round_nonneg)
  show "f32_div (f32_of_nat i) (f32_of_nat u) \<le> 1"
    unfolding f32_div_def using r by (intro f32_round_le_1)
qed

lemma jaccard_range: "0 \<le> jaccard A B \<and> jaccard A B \<le> 1"
proof (cases "A = {||} \<and> B = {||}")
  case True
  then show ?thesis by (simp add: jaccard_alt)
next
  case False
  then have u: "0 < fcard (A |\<union>| B)"
    by (auto simp add: zero_less_iff_neq_zero)
  have iu: "fcard (A |\<inter>| B) \<le> fcard (A |\<union>| B)"
    by (intro fcard_mono) auto
  note q = quotient_bounds[OF iu u]
  have "0 \<le> f32_round (1 - f32_div (f32_of_nat (fcard (A |\<inter>| B))) (f32_of_nat (fcard (A |\<union>| B))))"
    using q by (intro f32_round_nonneg) simp
  moreover have "f32_round (1 - f32_div (f32_of_nat (fcard (A |\<inter>| B))) (f32_of_nat (fcard (A |\<union>| B)))) \<le> 1"
    using q by (intro f32_round_le_1) simp_all
  ultimately show ?thesis using False by (simp add: jaccard_alt f32_sub_def)
qed


lemma f32_round_eps24: "f32_round eps24 = eps24"
proof -
  have a: "of_int 1 * (2::rat) powi (- 24) = eps24"
    by (simp add: eps24_def power_int_minus inverse_eq_divide)
  have "f32_round (of_int 1 * 2 powi (- 24)) = of_int 1 * 2 powi (- 24)"
    by (rule f32_round_exact) simp_all
  then show ?thesis unfolding a .
qed

lemma f32_round_one_minus_eps24: "f32_round (1 - eps24) = 1 - eps24"
proof -
  have a: "of_int 16777215 * (2::rat) powi (- 24) = 1 - eps24"
    by (simp add: eps24_def power_int_minus inverse_eq_divide)
  have "f32_round (of_int 16777215 * 2 powi (- 24)) = of_int 16777215 * 2 powi (- 24)"
    by (rule f32_round_exact) simp_all
  then show ?thesis unfolding a .
qed

lemma quotient_lt_1:
  assumes "i < u" "u \<le> 2 ^ 24"
  shows "f32_div (f32_of_nat i) (f32_of_nat u) \<le> 1 - eps24"
proof -
  have ex: "f32_of_nat i = of_nat i" "f32_of_nat u = of_nat u"
    using assms by (simp_all add: f32_of_nat_def f32_round_of_nat_exact)
  have u: "(0::rat) < of_nat u" using assms by simp
  have "(of_nat i :: rat) \<le> of_nat u - 1"
    using assms(1) by (metis Suc_leI of_nat_Suc of_nat_le_iff le_diff_eq add.commute)
  then have "(of_nat i :: rat) / of_nat u \<le> (of_nat u - 1) / of_nat u"
    using u by (simp add: divide_right_mono)
  also have "\<dots> = 1 - 1 / of_nat u" using u by (simp add: diff_divide_distrib)
  also have "\<dots> \<le> 1 - eps24"
  proof -
    have "(of_nat u :: rat) \<le> 2 ^ 24" using assms(2)
      by (metis of_nat_le_iff of_nat_numeral of_nat_power)
    then have "1 / 2 ^ 24 \<le> 1 / (of_nat u :: rat)" using u by (simp add: frac_le)
    then show ?thesis by (simp add: eps24_def)
  qed
  finally have "(of_nat i :: rat) / of_nat u \<le> 1 - eps24" .
  moreover have "(0::rat) \<le> of_nat i / of_nat u" by simp
  ultimately have "f32_round (of_nat i / of_nat u) \<le> f32_round (1 - eps24)"
    by (intro f32_round_mono)
  then show ?thesis by (simp add: f32_div_def ex f32_round_one_minus_eps24)
qed

lemma quotient_ge_eps:
  assumes "0 < i" "i \<le> u" "u \<le> 2 ^ 24"
  shows "eps24 \<le> f32_div (f32_of_nat i) (f32_of_nat u)"
proof -
  have ex: "f32_of_nat i = of_nat i" "f32_of_nat u = of_nat u"
    using assms by (simp_all add: f32_of_nat_def f32_round_of_nat_exact)
  have u: "(0::rat) < of_nat u" using assms by simp
  have "(of_nat u :: rat) \<le> 2 ^ 24" using assms(3)
    by (metis of_nat_le_iff of_nat_numeral of_nat_power)
  moreover have "(1::rat) \<le> of_nat i" using assms(1) by simp
  ultimately have "1 / 2 ^ 24 \<le> (of_nat i :: rat) / of_nat u"
    using u by (intro frac_le) simp_all
  then have "f32_round eps24 \<le> f32_round (of_nat i / of_nat u)"
    by (intro f32_round_mono) (simp_all add: eps24_def)
  then show ?thesis by (simp add: f32_div_def ex f32_round_eps24)
qed

lemma eps24_pos: "0 < eps24" "eps24 < 1"
  by (simp_all add: eps24_def)

lemma jaccard_eq_0_small:
  assumes "fcard (A |\<union>| B) \<le> 2 ^ 24" "jaccard A B = 0"
  shows "A = B"
proof (rule ccontr)
  assume ne: "A \<noteq> B"
  then have nonempty: "\<not> (A = {||} \<and> B = {||})" by auto
  have "A |\<inter>| B |\<subset>| A |\<union>| B" using ne by auto
  then have lt: "fcard (A |\<inter>| B) < fcard (A |\<union>| B)" by (rule pfsubset_fcard_mono)
  let ?q = "f32_div (f32_of_nat (fcard (A |\<inter>| B))) (f32_of_nat (fcard (A |\<union>| B)))"
  have "?q \<le> 1 - eps24" using lt assms(1) by (rule quotient_lt_1)
  then have "0 < 1 - ?q" using eps24_pos by linarith
  then have "0 < f32_round (1 - ?q)" by (rule f32_round_pos)
  then show False using assms(2) nonempty by (simp add: jaccard_alt f32_sub_def)
qed

lemma jaccard_eq_1_small:
  assumes "fcard (A |\<union>| B) \<le> 2 ^ 24" "jaccard A B = 1"
  shows "A |\<inter>| B = {||} \<and> (A \<noteq> {||} \<or> B \<noteq> {||})"
proof -
  have nonempty: "\<not> (A = {||} \<and> B = {||})" using assms(2) by (auto simp add: jaccard_alt)
  have "A |\<inter>| B = {||}"
  proof (rule ccontr)
    assume "A |\<inter>| B \<noteq> {||}"
    then have pos: "0 < fcard (A |\<inter>| B)" by (simp add: zero_less_iff_neq_zero)
    have le: "fcard (A |\<inter>| B) \<le> fcard (A |\<union>| B)" by (intro fcard_mono) auto
    let ?q = "f32_div (f32_of_nat (fcard (A |\<inter>| B))) (f32_of_nat (fcard (A |\<union>| B)))"
    have q: "eps24 \<le> ?q" using pos le assms(1) by (rule quotient_ge_eps)
    have q1: "?q \<le> 1" using le pos by (intro quotient_bounds(2)) simp_all
    have "f32_round (1 - ?q) \<le> f32_round (1 - eps24)"
      using q q1 by (intro f32_round_mono) simp_all
    then have "f32_round (1 - ?q) < 1"
      using eps24_pos by (simp add: f32_round_one_minus_eps24)
    then show False using assms(2) nonempty by (simp add: jaccard_alt f32_sub_def)
  qed
  then show ?thesis using nonempty by simp
qed

lemma jaccard_same: "jaccard A A = 0"
proof (cases "A = {||}")
  case True then show ?thesis by (simp add: jaccard_alt)
next
  case False
  then have "0 < fcard A" by (simp add: zero_less_iff_neq_zero)
  then have "0 < f32_of_nat (fcard A)"
    unfolding f32_of_nat_def by (intro f32_round_pos) simp
  then show ?thesis using False by (simp add: jaccard_alt f32_sub_def f32_div_def)
qed

lemma jaccard_disjoint:
  assumes "A |\<inter>| B = {||}" "A \<noteq> {||} \<or> B \<noteq> {||}"
  shows "jaccard A B = 1"
  using assms by (auto simp add: jaccard_alt f32_sub_def f32_div_def f32_of_nat_def fcard_fempty)

lemma inj_tag: "inj (\<lambda>i. replicate (Suc i) CHR ''t'')"
proof (rule injI)
  fix x y :: nat
  assume "replicate (Suc x) CHR ''t'' = replicate (Suc y) CHR ''t''"
  then have "length (replicate (Suc x) CHR ''t'') = length (replicate (Suc y) CHR ''t'')"
    by (rule arg_cong)
  then show "x = y" by simp
qed

lemma fcard_tags_upto: "fcard (tags_upto n) = n"
proof -
  have "fset (tags_upto n) = (\<lambda>i. replicate (Suc i) CHR ''t'') ` {0..<n}"
    by (simp add: tags_upto_def fset_of_list.rep_eq)
  then have "card (fset (tags_upto n)) = card {0..<n}"
    using inj_tag by (simp add: card_image inj_on_def inj_def)
  then show ?thesis by (simp add: fcard.rep_eq)
qed

lemma tags_upto_mono: "m \<le> n \<Longrightarrow> tags_upto m |\<subseteq>| tags_upto n"
  by (auto simp add: tags_upto_def fset_of_list_elem)

lemma f32_of_nat_16777217: "f32_of_nat 16777217 = 16777216"
proof -
  have "f32_round 16777217 = 16777216" by code_simp
  then show ?thesis by (simp add: f32_of_nat_def)
qed

lemma f32_of_nat_16777216: "f32_of_nat 16777216 = 16777216"
  unfolding f32_of_nat_def using f32_round_of_nat_exact[of 16777216] by simp

lemma f32_of_nat_pos: "0 < n \<Longrightarrow> 0 < f32_of_nat n"
  unfolding f32_of_nat_def by (intro f32_round_pos) simp

lemma f32_of_nat_mono: "m \<le> n \<Longrightarrow> f32_of_nat m \<le> f32_of_nat n"
  unfolding f32_of_nat_def by (intro f32_round_mono) simp_all

lemma quotient_lt_1_inter:
  assumes "i < u" "i < 2 ^ 24"
  shows "f32_div (f32_of_nat i) (f32_of_nat u) \<le> 1 - eps24"
proof (cases "u \<le> 2 ^ 24")
  case True
  with assms(1) show ?thesis by (rule quotient_lt_1)
next
  case False
  then have "(2::nat) ^ 24 \<le> u" by simp
  then have "f32_of_nat (2 ^ 24) \<le> f32_of_nat u" by (rule f32_of_nat_mono)
  moreover have "f32_of_nat (2 ^ 24) = 2 ^ 24"
    using f32_round_of_nat_exact[of "2 ^ 24"] by (simp add: f32_of_nat_def)
  ultimately have fu: "2 ^ 24 \<le> f32_of_nat u" by simp
  have fi: "f32_of_nat i = of_nat i"
    using assms(2) by (simp add: f32_of_nat_def f32_round_of_nat_exact)
  have "(of_nat i :: rat) \<le> of_nat (2 ^ 24 - 1)"
    using assms(2) by simp
  then have i: "(of_nat i :: rat) \<le> 2 ^ 24 - 1" by simp
  have "of_nat i / f32_of_nat u \<le> (2 ^ 24 - 1) / (2 ^ 24 :: rat)"
    using i fu by (intro frac_le) simp_all
  also have "\<dots> = 1 - eps24" by (simp add: eps24_def)
  finally have le: "of_nat i / f32_of_nat u \<le> 1 - eps24" .
  have "0 < f32_of_nat u" using fu by simp
  then have "0 \<le> of_nat i / f32_of_nat u" by simp
  then have "f32_round (of_nat i / f32_of_nat u) \<le> f32_round (1 - eps24)"
    using le by (intro f32_round_mono)
  then show ?thesis by (simp add: f32_div_def fi f32_round_one_minus_eps24)
qed

lemma jaccard_eq_0_inter:
  assumes "fcard (A |\<inter>| B) < 2 ^ 24" "jaccard A B = 0"
  shows "A = B"
proof (rule ccontr)
  assume ne: "A \<noteq> B"
  then have nonempty: "\<not> (A = {||} \<and> B = {||})" by auto
  have "A |\<inter>| B |\<subset>| A |\<union>| B" using ne by auto
  then have lt: "fcard (A |\<inter>| B) < fcard (A |\<union>| B)" by (rule pfsubset_fcard_mono)
  let ?q = "f32_div (f32_of_nat (fcard (A |\<inter>| B))) (f32_of_nat (fcard (A |\<union>| B)))"
  have "?q \<le> 1 - eps24" using lt assms(1) by (rule quotient_lt_1_inter)
  then have "0 < 1 - ?q" using eps24_pos by linarith
  then have "0 < f32_round (1 - ?q)" by (rule f32_round_pos)
  then show False using assms(2) nonempty by (simp add: jaccard_alt f32_sub_def)
qed

lemma f32_round_33554430: "f32_round 33554430 = 33554430"
  by code_simp

lemma f32_round_inv_33554430: "f32_round (1 / 33554430) = 8388609 / 281474976710656"
  by code_simp

lemma f32_round_below_1: "f32_round (1 - 8388609 / 281474976710656) = 1 - eps24"
proof -
  have "f32_round (1 - 8388609 / 281474976710656) = 16777215 / 16777216" by code_simp
  then show ?thesis by (simp add: eps24_def)
qed

lemma quotient_ge_union:
  assumes "0 < i" "u \<le> 33554430" "0 < u"
  shows "8388609 / 281474976710656 \<le> f32_div (f32_of_nat i) (f32_of_nat u)"
proof -
  have "f32_of_nat 1 \<le> f32_of_nat i" using assms(1) by (intro f32_of_nat_mono) simp
  then have fi: "1 \<le> f32_of_nat i" by (simp add: f32_of_nat_def)
  have "f32_of_nat u \<le> f32_of_nat 33554430" using assms(2) by (rule f32_of_nat_mono)
  then have fu: "f32_of_nat u \<le> 33554430" by (simp add: f32_of_nat_def f32_round_33554430)
  have pos: "0 < f32_of_nat u" using assms(3) by (rule f32_of_nat_pos)
  have "1 / 33554430 \<le> f32_of_nat i / f32_of_nat u"
    using fi fu pos by (intro frac_le) simp_all
  then have "f32_round (1 / 33554430) \<le> f32_round (f32_of_nat i / f32_of_nat u)"
    by (intro f32_round_mono) simp_all
  then show ?thesis by (simp add: f32_div_def f32_round_inv_33554430)
qed

lemma jaccard_eq_1_union:
  assumes "fcard (A |\<union>| B) \<le> 33554430" "jaccard A B = 1"
  shows "A |\<inter>| B = {||} \<and> (A \<noteq> {||} \<or> B \<noteq> {||})"
proof -
  have nonempty: "\<not> (A = {||} \<and> B = {||})" using assms(2) by (auto simp add: jaccard_alt)
  then have upos: "0 < fcard (A |\<union>| B)" by (auto simp add: zero_less_iff_neq_zero)
  have "A |\<inter>| B = {||}"
  proof (rule ccontr)
    assume "A |\<inter>| B \<noteq> {||}"
    then have pos: "0 < fcard (A |\<inter>| B)" by (simp add: zero_less_iff_neq_zero)
    have le: "fcard (A |\<inter>| B) \<le> fcard (A |\<union>| B)" by (intro fcard_mono) auto
    let ?q = "f32_div (f32_of_nat (fcard (A |\<inter>| B))) (f32_of_nat (fcard (A |\<union>| B)))"
    have q: "8388609 / 281474976710656 \<le> ?q" using pos assms(1) upos by (rule quotient_ge_union)
    have q1: "?q \<le> 1" using le upos by (rule quotient_bounds(2))
    have "f32_round (1 - ?q) \<le> f32_round (1 - 8388609 / 281474976710656)"
      using q q1 by (intro f32_round_mono) simp_all
    then have "f32_round (1 - ?q) \<le> 1 - eps24"
      unfolding f32_round_below_1 .
    then have "f32_round (1 - ?q) < 1"
      using eps24_pos by linarith
    then show False using assms(2) nonempty by (simp add: jaccard_alt f32_sub_def)
  qed
  then show ?thesis using nonempty by simp
qed

lemma fcard_tags_upto_inter: "m \<le> n \<Longrightarrow> fcard (tags_upto m |\<inter>| tags_upto n) = m"
proof -
  assume "m \<le> n"
  then have "tags_upto m |\<subseteq>| tags_upto n" by (rule tags_upto_mono)
  then have "tags_upto m |\<inter>| tags_upto n = tags_upto m" by auto
  then show ?thesis by (simp add: fcard_tags_upto)
qed

lemma fcard_tags_upto_union: "m \<le> n \<Longrightarrow> fcard (tags_upto m |\<union>| tags_upto n) = n"
proof -
  assume "m \<le> n"
  then have "tags_upto m |\<subseteq>| tags_upto n" by (rule tags_upto_mono)
  then have "tags_upto m |\<union>| tags_upto n = tags_upto n" by auto
  then show ?thesis by (simp add: fcard_tags_upto)
qed

lemma f32_of_nat_33554431: "f32_of_nat 33554431 = 33554432"
proof -
  have "f32_round 33554431 = 33554432" by code_simp
  then show ?thesis by (simp add: f32_of_nat_def)
qed

lemma f32_of_nat_1: "f32_of_nat 1 = 1"
  by (simp add: f32_of_nat_def)

lemma f32_one_minus_tiny: "f32_sub 1 (f32_div 1 33554432) = 1"
  unfolding f32_sub_def f32_div_def by code_simp

section \<open>Selection of the nearest neighbours\<close>

lemma not_node_less: "(\<not> node_less b a) = (dist' a \<le> dist' b)"
  by (auto simp add: node_less_def)

lemma prefix_dists:
  assumes ne: "nth_element_post node_less k xs ys"
    and so: "sort_post node_less (take k ys) zs"
    and k: "k \<le> length xs"
  shows "map dist' zs = take k (sort (map dist' xs))"
proof -
  let ?L = "map dist' (take k ys)" and ?R = "map dist' (drop k ys)"
  have m: "mset ys = mset xs"
    and sep: "\<forall>a \<in> set (take k ys). \<forall>b \<in> set (drop k ys). dist' a \<le> dist' b"
    using ne by (simp_all add: nth_element_post_def not_node_less)
  have len: "length ys = length xs" using m by (rule mset_eq_length)
  have "sorted (sort ?L @ sort ?R)"
    using sep by (auto simp add: sorted_append)
  moreover have "mset (sort ?L @ sort ?R) = mset (map dist' xs)"
  proof -
    have "mset (sort ?L @ sort ?R) = mset (map dist' (take k ys @ drop k ys))"
      by (simp only: mset_append mset_sort map_append)
    then show ?thesis using m by simp
  qed
  ultimately have "sort (map dist' xs) = sort ?L @ sort ?R"
    by (intro properties_for_sort)
  moreover have "length (sort ?L) = k" using k len by simp
  ultimately have t: "take k (sort (map dist' xs)) = sort ?L" by simp
  have "mset zs = mset (take k ys)" and "sorted_wrt (\<lambda>a b. dist' a \<le> dist' b) zs"
    using so by (simp_all add: sort_post_def not_node_less)
  then have "mset (map dist' zs) = mset ?L" and "sorted (map dist' zs)"
    by (simp_all add: sorted_map)
  then have "sort ?L = map dist' zs" by (intro properties_for_sort)
  then show ?thesis using t by simp
qed

lemma int_of_size_eq: "int_of_size n = signed_take_bit 31 (int n)"
  using signed_of_nat[where ?'b = 32 and ?'a = int and n = n] by (simp add: int_of_size_def)

lemma int_of_size_small: "n < 2 ^ 31 \<Longrightarrow> int_of_size n = int n"
  unfolding int_of_size_eq
  by (rule signed_take_bit_int_eq_self) simp_all

lemma int_of_size_le: "int_of_size n \<le> int n"
  unfolding int_of_size_eq
  by (simp add: signed_take_bit_int_less_eq_self_iff)

lemma clamp_K_le: "clamp_K K n \<le> K" "clamp_K K n \<le> int n"
  using int_of_size_le[of n] by (auto simp add: clamp_K_def)

lemma clamp_K_small: "n < 2 ^ 31 \<Longrightarrow> clamp_K K n = min K (int n)"
  by (auto simp add: clamp_K_def int_of_size_small)

lemma mset_insert_by: "mset (insert_by cmp x ys) = add_mset x (mset ys)"
  by (induction ys) auto

lemma mset_isort_by: "mset (isort_by cmp xs) = mset xs"
  by (induction xs) (auto simp add: mset_insert_by)

lemma set_insert_by: "set (insert_by cmp x ys) = insert x (set ys)"
  by (induction ys) auto

lemma sorted_insert_by:
  "sorted_wrt (\<lambda>a b. dist' a \<le> dist' b) ys \<Longrightarrow>
   sorted_wrt (\<lambda>a b. dist' a \<le> dist' b) (insert_by node_less x ys)"
  by (induction ys) (auto simp add: set_insert_by node_less_def)

lemma sorted_isort_by: "sorted_wrt (\<lambda>a b. dist' a \<le> dist' b) (isort_by node_less xs)"
  by (induction xs) (auto simp add: sorted_insert_by)

lemma ref_sort_ok: "sort_ok ref_sort"
  by (simp add: sort_ok_def sort_post_def ref_sort_def mset_isort_by not_node_less sorted_isort_by)

lemma ref_nth_element_ok: "nth_element_ok ref_nth_element"
proof -
  have "\<forall>a \<in> set (take k (isort_by node_less xs)). \<forall>b \<in> set (drop k (isort_by node_less xs)).
          dist' a \<le> dist' b" for k xs
    using sorted_isort_by[of xs]
      sorted_wrt_append[of "\<lambda>a b. dist' a \<le> dist' b" "take k (isort_by node_less xs)"
        "drop k (isort_by node_less xs)"]
    by simp
  then show ?thesis
    by (simp add: nth_element_ok_def nth_element_post_def ref_nth_element_def mset_isort_by
        not_node_less)
qed

lemma select_top_k_example:
  "select_top_k ref_nth_element ref_sort 2
     [\<lparr>dist' = 1 / 2, idx = 0\<rparr>, \<lparr>dist' = 0, idx = 1\<rparr>, \<lparr>dist' = 1, idx = 2\<rparr>] =
   Inr (2, [\<lparr>dist' = 0, idx = 1\<rparr>, \<lparr>dist' = 1 / 2, idx = 0\<rparr>, \<lparr>dist' = 1, idx = 2\<rparr>])"
  by (simp add: select_top_k_def clamp_K_def int_of_size_def ref_nth_element_def ref_sort_def
      node_less_def)

section \<open>Aggregation and report loops\<close>

lemma elem_at_ok: "i < length xs \<Longrightarrow> elem_at xs i = Inr (xs ! i)"
  by (simp add: elem_at_def)

lemma aggregate_loop_ok:
  assumes "\<forall>i \<in> set js. i < length nbrs \<and> idx (nbrs ! i) < length videos"
  shows "aggregate_loop js nbrs videos (a, b, c) =
         Inr (a + sum_list (map (\<lambda>i. views (videos ! idx (nbrs ! i))) js),
              b + sum_list (map (\<lambda>i. likes (videos ! idx (nbrs ! i))) js),
              c + sum_list (map (\<lambda>i. comments (videos ! idx (nbrs ! i))) js))"
  using assms
  by (induction js arbitrary: a b c) (simp_all add: elem_at_ok add.assoc)

lemma report_loop_ok:
  assumes "\<forall>i \<in> set js. i < length nbrs \<and> idx (nbrs ! i) < length videos"
  shows "report_loop js nbrs videos out =
         (None, out @ map (\<lambda>i. Neighbour (i + 1) (id' (videos ! idx (nbrs ! i))) (dist' (nbrs ! i))
                               (views (videos ! idx (nbrs ! i))) (likes (videos ! idx (nbrs ! i)))
                               (comments (videos ! idx (nbrs ! i)))) js)"
  using assms
  by (induction js arbitrary: out) (simp_all add: elem_at_ok)

lemma sint_sum_list:
  fixes ws :: "int64 list"
  assumes "\<forall>w \<in> set ws. 0 \<le> sint w" and "sum_list (map sint ws) < 2 ^ 63"
  shows "sint (sum_list ws) = sum_list (map sint ws)"
  using assms
proof (induction ws)
  case Nil
  then show ?case by simp
next
  case (Cons w ws)
  have nn: "0 \<le> sum_list (map sint ws)"
    using Cons.prems(1) by (intro sum_list_nonneg) auto
  have w: "0 \<le> sint w" using Cons.prems(1) by simp
  have "sum_list (map sint ws) < 2 ^ 63" using Cons.prems(2) w by simp
  then have ih: "sint (sum_list ws) = sum_list (map sint ws)"
    using Cons.IH Cons.prems(1) by simp
  have "sint (w + sum_list ws) = signed_take_bit 63 (sint w + sint (sum_list ws))"
    by (simp add: sint_word_add)
  also have "\<dots> = sint w + sum_list (map sint ws)"
    unfolding ih using Cons.prems(2) w nn by (intro signed_take_bit_int_eq_self) simp_all
  finally show ?case by simp
qed

lemma div_K_nonneg:
  assumes "0 \<le> sint s" "0 < K"
  shows "sint (div_K s K) = sint s div K"
proof -
  have eq: "sint s sdiv K = sint s div K"
    using assms by (simp add: signed_divide_int_def sgn_if)
  have "0 \<le> sint s div K" using assms by (simp add: pos_imp_zdiv_nonneg_iff)
  moreover have "sint s div K \<le> sint s" using assms zdiv_mono2[of "sint s" 1 K] by simp
  moreover have "sint s < 2 ^ 63" using sint_lt[of s] by simp
  ultimately have "signed_take_bit 63 (sint s div K) = sint s div K"
    by (intro signed_take_bit_int_eq_self) simp_all
  then show ?thesis by (simp add: div_K_def eq signed_of_int)
qed

lemma div_K_1: "div_K s 1 = s"
proof -
  have "sint s sdiv 1 = sint s"
    by (simp add: signed_divide_int_def mult_sgn_abs)
  then show ?thesis by (simp add: div_K_def)
qed

lemma map_upt_take:
  "k \<le> length xs \<Longrightarrow> map (\<lambda>i. f (xs ! i)) [0..<k] = map f (take k xs)"
  by (rule nth_equalityI) simp_all

lemma upt_0_2: "[0..<2] = [0, Suc 0]"
  by (simp add: numeral_2_eq_2)

lemma aggregate_sums:
  assumes "0 \<le> K" "nat K \<le> length nbrs" "\<forall>n \<in> set (take (nat K) nbrs). idx n < length videos"
  shows "aggregate_loop [0..<nat K] nbrs videos (0, 0, 0) =
         Inr (sum_list (map views (selected K nbrs videos)),
              sum_list (map likes (selected K nbrs videos)),
              sum_list (map comments (selected K nbrs videos)))"
proof -
  have inb: "\<forall>i \<in> set [0..<nat K]. i < length nbrs \<and> idx (nbrs ! i) < length videos"
  proof
    fix i assume "i \<in> set [0..<nat K]"
    then have i: "i < nat K" by simp
    then have "nbrs ! i \<in> set (take (nat K) nbrs)"
      using assms(2) by (metis in_set_conv_nth length_take min.absorb2 nth_take)
    then show "i < length nbrs \<and> idx (nbrs ! i) < length videos"
      using assms(2,3) i by auto
  qed
  have m: "map (\<lambda>i. g (videos ! idx (nbrs ! i))) [0..<nat K] = map g (selected K nbrs videos)" for g :: "Record \<Rightarrow> int64"
    using map_upt_take[OF assms(2), of "\<lambda>n. g (videos ! idx n)"]
    by (simp add: selected_def comp_def)
  show ?thesis
    unfolding aggregate_loop_ok[OF inb] m by simp
qed

lemma sint_sum_field:
  fixes g :: "Record \<Rightarrow> int64"
  assumes "\<forall>r \<in> set rs. 0 \<le> sint (g r)" "sum_list (map (\<lambda>r. sint (g r)) rs) < 2 ^ 63"
  shows "sint (sum_list (map g rs)) = sum_list (map (\<lambda>r. sint (g r)) rs)"
    and "0 \<le> sint (sum_list (map g rs))"
proof -
  have "sint (sum_list (map g rs)) = sum_list (map sint (map g rs))"
    using assms by (intro sint_sum_list) (simp_all add: comp_def)
  then show eq: "sint (sum_list (map g rs)) = sum_list (map (\<lambda>r. sint (g r)) rs)"
    by (simp add: comp_def)
  show "0 \<le> sint (sum_list (map g rs))"
    unfolding eq using assms(1) by (intro sum_list_nonneg) auto
qed

lemma select_top_k_prefix:
  assumes "nth_element_ok nth_element" and "sort_ok sort'"
    and "1 \<le> K" and "length nbrs < 2 ^ 31"
  shows "\<exists>nbrs'. select_top_k nth_element sort' K nbrs = Inr (min K (int (length nbrs)), nbrs') \<and>
           mset nbrs' = mset nbrs \<and>
           length (take (min (nat K) (length nbrs)) nbrs') = min (nat K) (length nbrs) \<and>
           sorted (map dist' (take (min (nat K) (length nbrs)) nbrs')) \<and>
           mset (map dist' (take (min (nat K) (length nbrs)) nbrs')) =
             mset (take (min (nat K) (length nbrs)) (sort (map dist' nbrs)))"
proof -
  define k where "k = min (nat K) (length nbrs)"
  define ys where "ys = nth_element node_less k nbrs"
  define zs where "zs = sort' node_less (take k ys)"
  have K': "clamp_K K (length nbrs) = min K (int (length nbrs))"
    using assms(4) by (rule clamp_K_small)
  have nk: "nat (min K (int (length nbrs))) = k"
    unfolding k_def using assms(3) by (cases "K \<le> int (length nbrs)") (simp_all add: min_def nat_le_iff)
  have kle: "k \<le> length nbrs" by (simp add: k_def)
  have ne: "nth_element_post node_less k nbrs ys"
    using assms(1) kle by (simp add: nth_element_ok_def ys_def)
  have so: "sort_post node_less (take k ys) zs"
    using assms(2) by (simp add: sort_ok_def zs_def)
  have mys: "mset ys = mset nbrs" using ne by (simp add: nth_element_post_def)
  have mzs: "mset zs = mset (take k ys)" using so by (simp add: sort_post_def)
  have lys: "length ys = length nbrs" using mys by (rule mset_eq_length)
  have lzs: "length zs = k" using mset_eq_length[OF mzs] lys kle by simp
  have sel: "select_top_k nth_element sort' K nbrs = Inr (min K (int (length nbrs)), zs @ drop k ys)"
    using assms(3) by (simp add: select_top_k_def K' nk Let_def ys_def zs_def)
  have "mset (zs @ drop k ys) = mset (take k ys @ drop k ys)"
    using mzs by (simp only: mset_append)
  then have perm: "mset (zs @ drop k ys) = mset nbrs" using mys by simp
  have top: "take k (zs @ drop k ys) = zs" using lzs by simp
  have d: "map dist' zs = take k (sort (map dist' nbrs))"
    using ne so kle by (rule prefix_dists)
  have "sorted (take k (sort (map dist' nbrs)))"
    by (intro sorted_wrt_take) simp
  then have srt: "sorted (map dist' zs)" using d by simp
  show ?thesis
    unfolding k_def[symmetric]
  proof (intro exI conjI)
    show "select_top_k nth_element sort' K nbrs = Inr (min K (int (length nbrs)), zs @ drop k ys)"
      by (rule sel)
    show "mset (zs @ drop k ys) = mset nbrs" by (rule perm)
    show "length (take k (zs @ drop k ys)) = k" unfolding top by (rule lzs)
    show "sorted (map dist' (take k (zs @ drop k ys)))" unfolding top by (rule srt)
    show "mset (map dist' (take k (zs @ drop k ys))) = mset (take k (sort (map dist' nbrs)))"
      unfolding top d ..
  qed
qed

section \<open>Safety of the pipeline\<close>

lemma length_compute_nbrs [simp]: "length (compute_nbrs qTags videos) = length videos"
  by (simp add: compute_nbrs_def)

lemma idx_compute_nbrs: "n \<in> set (compute_nbrs qTags videos) \<Longrightarrow> idx n < length videos"
  by (auto simp add: compute_nbrs_def)

lemma select_top_k_Inr:
  assumes "nth_element_ok nth_element" "sort_ok sort'"
    and "select_top_k nth_element sort' K nbrs = Inr (K', nbrs')"
  shows "K' = clamp_K K (length nbrs)" and "0 \<le> K'" and "nat K' \<le> length nbrs"
    and "mset nbrs' = mset nbrs"
proof -
  let ?k = "nat (clamp_K K (length nbrs))"
  let ?ys = "nth_element node_less ?k nbrs"
  from assms(3) have K': "K' = clamp_K K (length nbrs)"
    and rng: "\<not> (K' < 0 \<or> int (length nbrs) < K')"
    and n': "nbrs' = sort' node_less (take ?k ?ys) @ drop ?k ?ys"
    by (auto simp add: select_top_k_def Let_def split: if_splits)
  show "K' = clamp_K K (length nbrs)" by (rule K')
  show "0 \<le> K'" using rng by simp
  show k: "nat K' \<le> length nbrs" using rng by (simp add: nat_le_iff)
  have "nth_element_post node_less ?k nbrs ?ys"
    using assms(1) k K' by (simp add: nth_element_ok_def)
  then have m1: "mset ?ys = mset nbrs" by (simp add: nth_element_post_def)
  have "sort_post node_less (take ?k ?ys) (sort' node_less (take ?k ?ys))"
    using assms(2) by (simp add: sort_ok_def)
  then have "mset (sort' node_less (take ?k ?ys)) = mset (take ?k ?ys)"
    by (simp add: sort_post_def)
  then have "mset nbrs' = mset (take ?k ?ys @ drop ?k ?ys)"
    unfolding n' by (simp only: mset_append)
  then show "mset nbrs' = mset nbrs" using m1 by simp
qed

lemma select_top_k_Inl:
  "select_top_k nth_element sort' K nbrs = Inl e \<Longrightarrow> e = Iterator_out_of_range"
  by (auto simp add: select_top_k_def Let_def split: if_splits)

lemma selected_in_bounds:
  assumes "nth_element_ok nth_element" "sort_ok sort'"
    and "select_top_k nth_element sort' K (compute_nbrs qTags videos) = Inr (K', nbrs')"
  shows "\<forall>i \<in> set [0..<nat K']. i < length nbrs' \<and> idx (nbrs' ! i) < length videos"
proof
  fix i assume "i \<in> set [0..<nat K']"
  then have i: "i < nat K'" by simp
  note r = select_top_k_Inr[OF assms]
  have len: "length nbrs' = length videos"
    using mset_eq_length[OF r(4)] by simp
  have "set nbrs' = set (compute_nbrs qTags videos)"
    using r(4) by (rule mset_eq_setD)
  moreover have il: "i < length nbrs'" using i r(3) len by simp
  ultimately have "nbrs' ! i \<in> set (compute_nbrs qTags videos)"
    using nth_mem by blast
  then show "i < length nbrs' \<and> idx (nbrs' ! i) < length videos"
    using il by (simp add: idx_compute_nbrs)
qed

lemma aggregate_Inl:
  assumes "\<forall>i \<in> set [0..<nat K']. i < length nbrs' \<and> idx (nbrs' ! i) < length videos"
    and "aggregate K' nbrs' videos = Inl e"
  shows "e = Division_by_zero"
  using assms(2) unfolding aggregate_def aggregate_loop_ok[OF assms(1)]
  by (simp split: if_splits)

lemma steps_3_to_5_status:
  assumes "nth_element_ok nth_element" "sort_ok sort'"
  shows "status (steps_3_to_5 nth_element sort' K qTags videos) \<noteq> Undefined Index_out_of_range"
    and "status (steps_3_to_5 nth_element sort' K qTags videos) \<noteq> Return 0 \<Longrightarrow>
         cout (steps_3_to_5 nth_element sort' K qTags videos) = []"
    and "cerr (steps_3_to_5 nth_element sort' K qTags videos) = []"
proof -
  have "status (steps_3_to_5 nth_element sort' K qTags videos) \<noteq> Undefined Index_out_of_range \<and>
        (status (steps_3_to_5 nth_element sort' K qTags videos) \<noteq> Return 0 \<longrightarrow>
         cout (steps_3_to_5 nth_element sort' K qTags videos) = []) \<and>
        cerr (steps_3_to_5 nth_element sort' K qTags videos) = []"
  proof (cases "select_top_k nth_element sort' K (compute_nbrs qTags videos)")
    case (Inl e)
    then show ?thesis using select_top_k_Inl[OF Inl] by (simp add: steps_3_to_5_def)
  next
    case sel: (Inr p)
    obtain K' nbrs' where p: "p = (K', nbrs')" by (cases p)
    note inb = selected_in_bounds[OF assms sel[unfolded p]]
    show ?thesis
    proof (cases "aggregate K' nbrs' videos")
      case (Inl e)
      then show ?thesis using aggregate_Inl[OF inb Inl] by (simp add: steps_3_to_5_def sel p)
    next
      case (Inr s)
      obtain a b c where s: "s = (a, b, c)" by (cases s)
      show ?thesis
        by (simp add: steps_3_to_5_def sel p Inr s report_loop_ok[OF inb])
    qed
  qed
  then show "status (steps_3_to_5 nth_element sort' K qTags videos) \<noteq> Undefined Index_out_of_range"
    and "status (steps_3_to_5 nth_element sort' K qTags videos) \<noteq> Return 0 \<Longrightarrow>
         cout (steps_3_to_5 nth_element sort' K qTags videos) = []"
    and "cerr (steps_3_to_5 nth_element sort' K qTags videos) = []"
    by simp_all
qed

lemma main_status:
  assumes "nth_element_ok nth_element" "sort_ok sort'"
  shows "status (main nth_element sort' argc K dataset query) \<noteq> Undefined Index_out_of_range"
    and "status (main nth_element sort' argc K dataset query) \<noteq> Return 0 \<Longrightarrow>
         cout (main nth_element sort' argc K dataset query) = []"
proof -
  show "status (main nth_element sort' argc K dataset query) \<noteq> Undefined Index_out_of_range"
    using steps_3_to_5_status(1)[OF assms]
    by (simp add: main_def Let_def split: option.splits sum.splits)
  show "cout (main nth_element sort' argc K dataset query) = []"
    if "status (main nth_element sort' argc K dataset query) \<noteq> Return 0"
    using steps_3_to_5_status(2)[OF assms] that
    by (simp add: main_def Let_def split: option.splits sum.splits if_splits)
qed

section \<open>The worked example\<close>

lemma load_example: "load (File example_csv) = Inr example_videos"
  by code_simp

lemma nbrs_example:
  "compute_nbrs {|''cat''|} example_videos =
     [\<lparr>dist' = 1 / 2, idx = 0\<rparr>, \<lparr>dist' = 0, idx = 1\<rparr>, \<lparr>dist' = 1, idx = 2\<rparr>]"
  by code_simp

lemma main_example_ref: "main ref_nth_element ref_sort 4 2 (Some (File example_csv)) ''cat'' =
   \<lparr>status = Return 0, cerr = [],
    cout = [Predicted 150 15 1, Top 2, Neighbour 1 ''B'' 0 200 20 2,
            Neighbour 2 ''A'' (1 / 2) 100 10 1]\<rparr>"
  by code_simp

lemma split_cat: "split ''cat'' CHR '';'' = [''cat'']"
  by code_simp

lemma top2_example:
  assumes "nth_element_ok nth_element" and "sort_ok sort'"
  shows "\<exists>rest. select_top_k nth_element sort' 2 (compute_nbrs {|''cat''|} example_videos) =
           Inr (2, [\<lparr>dist' = 0, idx = 1\<rparr>, \<lparr>dist' = 1 / 2, idx = 0\<rparr>] @ rest)"
proof -
  let ?nbrs = "[\<lparr>dist' = 1 / 2, idx = 0\<rparr>, \<lparr>dist' = 0, idx = 1\<rparr>, \<lparr>dist' = 1, idx = 2\<rparr>]"
  have len: "length ?nbrs < 2 ^ 31" by simp
  have K: "(1::int) \<le> 2" by simp
  have srt: "sort (map dist' ?nbrs) = [0, 1 / 2, 1]" by simp
  from select_top_k_prefix[OF assms K len]
  obtain nbrs' where sel: "select_top_k nth_element sort' 2 ?nbrs = Inr (2, nbrs')"
    and m: "mset nbrs' = mset ?nbrs"
    and l: "length (take 2 nbrs') = 2"
    and s: "sorted (map dist' (take 2 nbrs'))"
    and d: "mset (map dist' (take 2 nbrs')) = mset (take 2 (sort (map dist' ?nbrs)))"
    by (auto simp add: numeral_2_eq_2)
  have "sort (take 2 (sort (map dist' ?nbrs))) = map dist' (take 2 nbrs')"
    using d s by (rule properties_for_sort)
  then have dists: "map dist' (take 2 nbrs') = [0, 1 / 2]"
    unfolding srt by (simp add: numeral_2_eq_2)
  obtain a b where ab: "take 2 nbrs' = [a, b]"
    using l by (metis length_0_conv length_Suc_conv numeral_2_eq_2)
  have da: "dist' a = 0" and db: "dist' b = 1 / 2" using dists ab by simp_all
  have "set (take 2 nbrs') \<subseteq> set nbrs'" by (rule set_take_subset)
  moreover have "set nbrs' = set ?nbrs" using m by (rule mset_eq_setD)
  ultimately have "a \<in> set ?nbrs" and "b \<in> set ?nbrs" using ab by auto
  then have "a = \<lparr>dist' = 0, idx = 1\<rparr>" and "b = \<lparr>dist' = 1 / 2, idx = 0\<rparr>"
    using da db by auto
  then have "nbrs' = [\<lparr>dist' = 0, idx = 1\<rparr>, \<lparr>dist' = 1 / 2, idx = 0\<rparr>] @ drop 2 nbrs'"
    using ab append_take_drop_id[of 2 nbrs'] by simp
  then show ?thesis using sel unfolding nbrs_example by metis
qed

lemma steps_3_to_5_example:
  assumes "nth_element_ok nth_element" and "sort_ok sort'"
  shows "steps_3_to_5 nth_element sort' 2 {|''cat''|} example_videos =
   \<lparr>status = Return 0, cerr = [],
    cout = [Predicted 150 15 1, Top 2, Neighbour 1 ''B'' 0 200 20 2,
            Neighbour 2 ''A'' (1 / 2) 100 10 1]\<rparr>"
proof -
  from top2_example[OF assms] obtain rest where
    sel: "select_top_k nth_element sort' 2 (compute_nbrs {|''cat''|} example_videos) =
           Inr (2, [\<lparr>dist' = 0, idx = 1\<rparr>, \<lparr>dist' = 1 / 2, idx = 0\<rparr>] @ rest)"
    by blast
  have upt: "[0..<2] = [0, Suc 0]" by (simp add: numeral_2_eq_2)
  have agg: "aggregate 2 ([\<lparr>dist' = 0, idx = 1\<rparr>, \<lparr>dist' = 1 / 2, idx = 0\<rparr>] @ rest) example_videos
             = Inr (150, 15, 1)"
    by (simp add: aggregate_def upt elem_at_def example_videos_def div_K_def signed_divide_int_def)
  have rep: "report_loop [0..<nat 2] ([\<lparr>dist' = 0, idx = 1\<rparr>, \<lparr>dist' = 1 / 2, idx = 0\<rparr>] @ rest)
               example_videos [Predicted 150 15 1, Top 2] =
             (None, [Predicted 150 15 1, Top 2, Neighbour 1 ''B'' 0 200 20 2,
                     Neighbour 2 ''A'' (1 / 2) 100 10 1])"
    by (simp add: upt elem_at_def example_videos_def)
  show ?thesis
    using agg rep by (simp add: steps_3_to_5_def sel)
qed

section \<open>The loader\<close>

lemma getlines_unfold:
  "getlines ss delim = (case getline ss delim of None \<Rightarrow> [] | Some (buf, ss') \<Rightarrow> buf # getlines ss' delim)"
  by (rule getlines.simps)

lemma getlines_Nil [simp]: "getlines [] delim = []"
  by (subst getlines_unfold) (simp add: getline_def)

lemma getlines_Cons_cases:
  assumes "getlines ss delim = l # ls"
  shows "\<exists>r. getline ss delim = Some (l, r) \<and> getlines r delim = ls"
  using assms by (subst (asm) getlines_unfold) (auto split: option.splits)

lemma getlines_empty_iff: "getlines ss delim = [] \<longleftrightarrow> ss = []"
  by (subst getlines_unfold) (auto simp add: getline_def split: option.splits)

lemma split_loop_filter: "split_loop bufs out = out @ filter (\<lambda>buf. buf \<noteq> []) bufs"
  by (induction bufs arbitrary: out) simp_all

lemma split_filter: "split s delim = filter (\<lambda>buf. buf \<noteq> []) (getlines s delim)"
  by (simp add: split_def split_loop_filter)

lemma split_nonempty: "c \<in> set (split s delim) \<Longrightarrow> c \<noteq> []"
  by (simp add: split_filter)

lemma data_lines_cases:
  "data_lines src =
     (case getlines (bytes src) CHR 0x0A of
        [] \<Rightarrow> []
      | l # ls \<Rightarrow> if l \<noteq> [] \<and> \<not> isdigit (hd l) then ls
                 else if seekable src then l # ls else [])"
proof (cases "getline (bytes src) CHR 0x0A")
  case None
  then have "bytes src = []" by (simp add: getline_def split: if_splits)
  then show ?thesis by (simp add: data_lines_def getline_def)
next
  case (Some p)
  obtain l r where p: "p = (l, r)" by (cases p)
  have g: "getlines (bytes src) CHR 0x0A = l # getlines r CHR 0x0A"
    by (subst getlines_unfold) (simp add: Some p)
  show ?thesis
    by (simp add: data_lines_def Some p g)
qed

lemma data_lines_File: "data_lines (File content) = file_rows content"
  by (simp add: data_lines_cases file_rows_def split: list.splits)

lemma data_lines_Pipe:
  "data_lines (Pipe content) =
     (case getlines content CHR 0x0A of
        [] \<Rightarrow> []
      | l # ls \<Rightarrow> if l \<noteq> [] \<and> \<not> isdigit (hd l) then ls else [])"
  by (simp add: data_lines_cases split: list.splits)

lemma data_lines_header:
  assumes "getlines (bytes src) CHR 0x0A = l # ls" and "l \<noteq> []" and "\<not> isdigit (hd l)"
  shows "data_lines src = ls"
  using assms by (simp add: data_lines_cases)

lemma data_lines_no_header_seekable:
  assumes "getlines (bytes src) CHR 0x0A = l # ls" and "l = [] \<or> isdigit (hd l)"
    and "seekable src"
  shows "data_lines src = l # ls"
  using assms by (auto simp add: data_lines_cases)

lemma data_lines_no_header_not_seekable:
  assumes "getlines (bytes src) CHR 0x0A = l # ls" and "l = [] \<or> isdigit (hd l)"
    and "\<not> seekable src"
  shows "data_lines src = []"
  using assms by (auto simp add: data_lines_cases)

lemma load_loop_unusable:
  "\<not> usable line \<Longrightarrow> load_loop (line # rest) videos = load_loop rest videos"
  by (auto simp add: usable_def Let_def)

lemma load_loop_filter_usable: "load_loop (filter usable lines) videos = load_loop lines videos"
proof (induction lines arbitrary: videos)
  case Nil
  then show ?case by simp
next
  case (Cons line rest)
  show ?case
  proof (cases "usable line")
    case True
    then have u: "line \<noteq> []" "\<not> length (split line CHR '','') < 5"
      by (simp_all add: usable_def)
    show ?thesis
      using True u Cons.IH by (simp add: Let_def split: sum.splits)
  next
    case False
    have f: "filter usable (line # rest) = filter usable rest" using False by simp
    show ?thesis unfolding f load_loop_unusable[OF False] by (rule Cons.IH)
  qed
qed

lemma load_loop_no_usable:
  assumes "filter usable lines = []"
  shows "load_loop lines videos = Inr videos"
  using load_loop_filter_usable[of lines videos] assms by simp

lemma load_loop_length:
  "load_loop lines acc = Inr videos \<Longrightarrow> length videos = length acc + length (filter usable lines)"
proof (induction lines arbitrary: acc)
  case Nil
  then show ?case by simp
next
  case (Cons line rest)
  show ?case
  proof (cases "usable line")
    case True
    then have u: "line \<noteq> []" "\<not> length (split line CHR '','') < 5"
      by (simp_all add: usable_def)
    from Cons.prems obtain r where "load_loop rest (acc @ [r]) = Inr videos"
      using u by (auto simp add: Let_def split: sum.splits)
    then have "length videos = length (acc @ [r]) + length (filter usable rest)"
      by (rule Cons.IH)
    then show ?thesis using True by simp
  next
    case False
    have "load_loop rest acc = Inr videos"
      using Cons.prems unfolding load_loop_unusable[OF False] .
    then show ?thesis using Cons.IH False by simp
  qed
qed

lemma load_loop_built:
  "load_loop lines acc = Inr videos \<Longrightarrow> r \<in> set videos \<Longrightarrow>
   r \<in> set acc \<or> (\<exists>line \<in> set lines. built_from r line)"
proof (induction lines arbitrary: acc)
  case Nil
  then show ?case by simp
next
  case (Cons line rest)
  show ?case
  proof (cases "usable line")
    case True
    then have u: "line \<noteq> []" "\<not> length (split line CHR '','') < 5"
      by (simp_all add: usable_def)
    let ?cols = "split line CHR '',''"
    from Cons.prems(1) obtain v l c where
      st: "stoll (?cols ! 2) = Inr v" "stoll (?cols ! 3) = Inr l" "stoll (?cols ! 4) = Inr c"
      and rec: "load_loop rest (acc @ [\<lparr>id' = ?cols ! 0, tags = fset_of_list (split (?cols ! 1) CHR '';''),
                          views = v, likes = l, comments = c\<rparr>]) = Inr videos"
      using u by (auto simp add: Let_def split: sum.splits)
    let ?r = "\<lparr>id' = ?cols ! 0, tags = fset_of_list (split (?cols ! 1) CHR '';''),
                          views = v, likes = l, comments = c\<rparr>"
    have b: "built_from ?r line"
      using u st by (simp add: built_from_def Let_def)
    from Cons.IH[OF rec Cons.prems(2)]
    show ?thesis using b by auto
  next
    case False
    have "load_loop rest acc = Inr videos"
      using Cons.prems(1) unfolding load_loop_unusable[OF False] .
    from Cons.IH[OF this Cons.prems(2)] show ?thesis by auto
  qed
qed

lemma built_from_id: "built_from r line \<Longrightarrow> id' r \<noteq> []"
proof -
  assume b: "built_from r line"
  then have "0 < length (split line CHR '','')" and "id' r = split line CHR '','' ! 0"
    by (auto simp add: built_from_def Let_def)
  then have "id' r \<in> set (split line CHR '','')" by simp
  then show ?thesis by (rule split_nonempty)
qed

lemma cerr_steps_3_to_5: "cerr (steps_3_to_5 nth_element sort' K qTags videos) = []"
  by (simp add: steps_3_to_5_def Let_def split: sum.splits prod.splits option.splits)

lemma main_load_error:
  assumes "argc = 4" "0 < K"
  shows "Some LoadError \<in> set (map error_class_of (cerr (main nth_element sort' argc K dataset query)))
         \<longleftrightarrow> (case dataset of None \<Rightarrow> True
               | Some src \<Rightarrow> filter usable (data_lines src) = [])"
proof (cases dataset)
  case None
  then show ?thesis using assms by (simp add: main_def)
next
  case (Some src)
  show ?thesis
  proof (cases "load src")
    case (Inl e)
    then have "filter usable (data_lines src) \<noteq> []"
      using load_loop_no_usable[of "data_lines src" "[]"] by (auto simp add: load_def)
    then show ?thesis using assms Some Inl by (simp add: main_def)
  next
    case (Inr videos)
    then have len: "length videos = length (filter usable (data_lines src))"
      using load_loop_length[of "data_lines src" "[]" videos] by (simp add: load_def)
    show ?thesis
    proof (cases "videos = []")
      case True
      then show ?thesis using assms Some Inr len by (simp add: main_def)
    next
      case False
      then have "filter usable (data_lines src) \<noteq> []" using len by auto
      then show ?thesis
        using assms Some Inr False by (simp add: main_def Let_def cerr_steps_3_to_5)
    qed
  qed
qed


lemma main_load_error_outcome:
  assumes "argc = 4" "0 < K"
  shows "if (case dataset of None \<Rightarrow> True
            | Some src \<Rightarrow> filter usable (data_lines src) = [])
         then status (main nth_element sort' argc K dataset query) = Return 1 \<and>
              map error_class_of (cerr (main nth_element sort' argc K dataset query)) = [Some LoadError] \<and>
              cout (main nth_element sort' argc K dataset query) = []
         else Some LoadError \<notin> set (map error_class_of (cerr (main nth_element sort' argc K dataset query)))"
proof (cases dataset)
  case None
  then show ?thesis using assms by (simp add: main_def)
next
  case (Some src)
  show ?thesis
  proof (cases "filter usable (data_lines src) = []")
    case True
    then have "load src = Inr []"
      by (simp add: load_def load_loop_no_usable)
    then show ?thesis using assms Some True by (simp add: main_def)
  next
    case False
    then show ?thesis using main_load_error[OF assms, of nth_element sort' dataset query] Some by simp
  qed
qed

lemma main_bad_arguments_status:
  assumes "K \<le> 0 \<or> split query CHR '';'' = []"
  shows "status (main nth_element sort' argc K dataset query) = Return 1 \<or>
         (\<exists>e. status (main nth_element sort' argc K dataset query) = Terminate e)"
  using assms by (auto simp add: main_def Let_def split: option.splits sum.splits)

lemma main_load_error_File:
  assumes "argc = 4" "0 < K"
  shows "Some LoadError \<in>
           set (map error_class_of (cerr (main nth_element sort' argc K (Some (File content)) query)))
         \<longleftrightarrow> filter usable (file_rows content) = []"
  using main_load_error[OF assms, of nth_element sort' "Some (File content)" query]
  by (simp add: data_lines_File)

lemma main_Pipe_no_header:
  assumes "argc = 4" "0 < K"
    and "getlines content CHR 0x0A = l # ls" and "l = [] \<or> isdigit (hd l)"
  shows "main nth_element sort' argc K (Some (Pipe content)) query =
           \<lparr>status = Return 1, cerr = [Dataset_empty_or_malformed], cout = []\<rparr>"
proof -
  have "data_lines (Pipe content) = []"
    using assms(3,4) by (rule data_lines_no_header_not_seekable[of "Pipe content", simplified])
  then show ?thesis using assms(1,2) by (simp add: main_def load_def)
qed

section \<open>The claims\<close>

text \<open>
  Claim C3. The Jaccard distance is symmetric: for all tag sets \<open>A\<close> and \<open>B\<close>,
  \<open>jaccard A B\<close> equals \<open>jaccard B A\<close>.
\<close>

theorem jaccard_symmetric: "jaccard A B = jaccard B A"
  by (simp add: jaccard_alt finter_commute funion_commute conj_commute)

text \<open>
  Claim C2, as stated, fails in both of its converse directions: the distance is
  computed in binary32. With \<open>A\<close> of 16777217 tags and \<open>B\<close> its subset of 16777216
  tags, both the size of the intersection and the size of the union convert to
  \<open>16777216.0f\<close>, the quotient is 1 and the distance is 0, although \<open>A\<close> and \<open>B\<close>
  differ. With a query \<open>A\<close> of one tag and a set \<open>B\<close> of 33554431 tags that contains
  it, the quotient is \<open>2^-25\<close>, which the subtraction from 1 rounds away: the distance
  is 1, although the sets share a tag.
\<close>

theorem jaccard_endpoints_counterexample:
  "jaccard (tags_upto 16777217) (tags_upto 16777216) = 0 \<and>
   tags_upto 16777217 \<noteq> tags_upto 16777216 \<and>
   jaccard (tags_upto 1) (tags_upto 33554431) = 1 \<and>
   tags_upto 1 |\<inter>| tags_upto 33554431 \<noteq> {||}"
proof -
  have sub: "tags_upto 16777216 |\<subseteq>| tags_upto 16777217"
    by (rule tags_upto_mono) simp
  have i: "tags_upto 16777217 |\<inter>| tags_upto 16777216 = tags_upto 16777216"
    using sub by auto
  have u: "tags_upto 16777217 |\<union>| tags_upto 16777216 = tags_upto 16777217"
    using sub by auto
  have ne: "tags_upto 16777217 \<noteq> tags_upto 16777216"
    using fcard_tags_upto[of 16777217] fcard_tags_upto[of 16777216] by auto
  have nonempty: "tags_upto 16777217 \<noteq> {||}"
    using fcard_tags_upto[of 16777217] by (auto simp add: fcard_fempty)
  have "jaccard (tags_upto 16777217) (tags_upto 16777216) =
        f32_sub 1 (f32_div (f32_of_nat 16777216) (f32_of_nat 16777217))"
    using nonempty by (simp add: jaccard_alt i u fcard_tags_upto)
  also have "\<dots> = 0"
    by (simp add: f32_of_nat_16777217 f32_of_nat_16777216 f32_div_def f32_sub_def)
  finally have zero: "jaccard (tags_upto 16777217) (tags_upto 16777216) = 0" .
  have i1: "fcard (tags_upto 1 |\<inter>| tags_upto 33554431) = 1"
    using fcard_tags_upto_inter[of 1 33554431] by simp
  have u1: "fcard (tags_upto 1 |\<union>| tags_upto 33554431) = 33554431"
    using fcard_tags_upto_union[of 1 33554431] by simp
  have shared: "tags_upto 1 |\<inter>| tags_upto 33554431 \<noteq> {||}"
    using i1 by (auto simp add: fcard_fempty)
  have nonempty1: "tags_upto 1 \<noteq> {||}"
    using shared by auto
  have "jaccard (tags_upto 1) (tags_upto 33554431) =
        f32_sub 1 (f32_div (f32_of_nat 1) (f32_of_nat 33554431))"
    using nonempty1 i1 u1 by (simp add: jaccard_alt)
  also have "\<dots> = 1"
    unfolding f32_of_nat_1 f32_of_nat_33554431 by (rule f32_one_minus_tiny)
  finally have one: "jaccard (tags_upto 1) (tags_upto 33554431) = 1" .
  show ?thesis using zero ne one shared by simp
qed

text \<open>
  Claim C2, amended. For all tag sets \<open>A\<close> and \<open>B\<close> the distance lies in \<open>[0, 1]\<close>;
  it is 0 whenever \<open>A = B\<close> (two empty sets included) and 1 whenever \<open>A\<close> and \<open>B\<close>
  share no element and at least one of them is non-empty. Conversely, distance 0 means
  \<open>A = B\<close> whenever the intersection has fewer than \<open>2^24\<close> elements, and distance 1
  means no shared element (and a non-empty set) whenever the union has at most
  \<open>2^25 - 2\<close> elements.
\<close>

theorem jaccard_range_and_endpoints:
  "0 \<le> jaccard A B \<and> jaccard A B \<le> 1 \<and>
   (A = B \<longrightarrow> jaccard A B = 0) \<and>
   (A |\<inter>| B = {||} \<and> (A \<noteq> {||} \<or> B \<noteq> {||}) \<longrightarrow> jaccard A B = 1) \<and>
   (fcard (A |\<inter>| B) < 2 ^ 24 \<longrightarrow> (jaccard A B = 0 \<longleftrightarrow> A = B)) \<and>
   (fcard (A |\<union>| B) \<le> 33554430 \<longrightarrow>
      (jaccard A B = 1 \<longleftrightarrow> A |\<inter>| B = {||} \<and> (A \<noteq> {||} \<or> B \<noteq> {||})))"
  using jaccard_range[of A B] jaccard_same[of A] jaccard_disjoint[of A B]
    jaccard_eq_0_inter[of A B] jaccard_eq_1_union[of A B]
  by blast

theorem jaccard_range_and_endpoints_witness:
  "jaccard {|''cat''|} {|''cat''|} = 0 \<and>
   jaccard {|''cat''|} {|''dog''|} = 1 \<and>
   fcard ({|''cat''|} |\<inter>| {|''cat'', ''dance''|}) < 2 ^ 24 \<and>
   fcard ({|''cat''|} |\<union>| {|''cat'', ''dance''|}) \<le> 33554430 \<and>
   jaccard {|''cat''|} {|''cat'', ''dance''|} \<noteq> 0 \<and>
   jaccard {|''cat''|} {|''cat'', ''dance''|} \<noteq> 1"
proof -
  have "fcard ({|''cat''|} |\<inter>| {|''cat'', ''dance''|}) = 1"
    by (simp add: fcard_finsert_if fcard_fempty)
  then have i: "fcard ({|''cat''|} |\<inter>| {|''cat'', ''dance''|}) < 2 ^ 24"
    by simp
  have "fcard ({|''cat''|} |\<union>| {|''cat'', ''dance''|}) = 2"
    by (simp add: fcard_finsert_if fcard_fempty)
  then have u: "fcard ({|''cat''|} |\<union>| {|''cat'', ''dance''|}) \<le> 33554430"
    by simp
  have ne: "{|''cat''|} \<noteq> {|''cat'', ''dance''|}" by auto
  have sh: "{|''cat''|} |\<inter>| {|''cat'', ''dance''|} \<noteq> {||}" by auto
  have dj: "{|''cat''|} |\<inter>| {|''dog''|} = {||}" by auto
  have n1: "{|''cat''|} \<noteq> ({||} :: string fset)" by simp
  note c2 = conjunct2
  have same: "jaccard {|''cat''|} {|''cat''|} = 0"
    using jaccard_range_and_endpoints[of "{|''cat''|}" "{|''cat''|}", THEN c2, THEN c2, THEN conjunct1]
    by simp
  have disj: "jaccard {|''cat''|} {|''dog''|} = 1"
    using jaccard_range_and_endpoints[of "{|''cat''|}" "{|''dog''|}", THEN c2, THEN c2, THEN c2,
        THEN conjunct1] dj n1
    by simp
  have "jaccard {|''cat''|} {|''cat'', ''dance''|} = 0 \<longleftrightarrow> {|''cat''|} = {|''cat'', ''dance''|}"
    using jaccard_range_and_endpoints[of "{|''cat''|}" "{|''cat'', ''dance''|}", THEN c2, THEN c2,
        THEN c2, THEN c2, THEN conjunct1] i
    by (rule mp)
  then have n0: "jaccard {|''cat''|} {|''cat'', ''dance''|} \<noteq> 0" using ne by simp
  have "jaccard {|''cat''|} {|''cat'', ''dance''|} = 1 \<longleftrightarrow>
        {|''cat''|} |\<inter>| {|''cat'', ''dance''|} = {||} \<and>
        ({|''cat''|} \<noteq> {||} \<or> {|''cat'', ''dance''|} \<noteq> {||})"
    using jaccard_range_and_endpoints[of "{|''cat''|}" "{|''cat'', ''dance''|}", THEN c2, THEN c2,
        THEN c2, THEN c2, THEN c2] u
    by (rule mp)
  then have n1': "jaccard {|''cat''|} {|''cat'', ''dance''|} \<noteq> 1" using sh by simp
  show ?thesis
    using same disj i u n0 n1' by (intro conjI)
qed

text \<open>
  Claim C1, as stated, fails for a Neighbor sequence of \<open>2^32\<close> elements: the clamp
  compares \<open>K\<close> with \<^verbatim>\<open>static_cast<int>(nbrs.size())\<close>, which is 0 for that size, so a
  request of \<open>K = 1\<close> is reduced to 0 and nothing is selected, where \<open>min(K, N)\<close> is 1.
\<close>

theorem select_top_k_counterexample:
  "map_sum id fst (select_top_k ref_nth_element ref_sort 1
      (replicate 4294967296 \<lparr>dist' = 0, idx = 0\<rparr>)) = Inr 0 \<and>
   min 1 (length (replicate 4294967296 \<lparr>dist' = 0, idx = 0\<rparr>)) = 1"
  by (simp add: select_top_k_def clamp_K_def int_of_size_def)

text \<open>
  Claim C1, amended. For every sequence of Neighbors of length \<open>N < 2^31\<close> and every
  requested \<open>K \<ge> 1\<close>, with library algorithms that meet their postconditions, the
  selection is never an error: \<open>K\<close> is clamped to \<open>min(K, N)\<close>, the vector is permuted,
  and its first \<open>min(K, N)\<close> elements are sorted ascending by distance and carry exactly
  the \<open>min(K, N)\<close> smallest distances of the whole sequence, as a multiset.
\<close>

theorem select_top_k_correct:
  assumes "nth_element_ok nth_element" and "sort_ok sort'"
    and "1 \<le> K" and "length nbrs < 2 ^ 31"
  shows "\<exists>nbrs'. select_top_k nth_element sort' K nbrs = Inr (min K (int (length nbrs)), nbrs') \<and>
           mset nbrs' = mset nbrs \<and>
           length (take (min (nat K) (length nbrs)) nbrs') = min (nat K) (length nbrs) \<and>
           sorted (map dist' (take (min (nat K) (length nbrs)) nbrs')) \<and>
           mset (map dist' (take (min (nat K) (length nbrs)) nbrs')) =
             mset (take (min (nat K) (length nbrs)) (sort (map dist' nbrs)))"
  using assms by (rule select_top_k_prefix)

theorem select_top_k_correct_witness:
  "nth_element_ok ref_nth_element \<and> sort_ok ref_sort \<and> (1::int) \<le> 2 \<and>
   length [\<lparr>dist' = 1 / 2, idx = 0\<rparr>, \<lparr>dist' = 0, idx = 1\<rparr>, \<lparr>dist' = 1, idx = 2\<rparr>] < 2 ^ 31 \<and>
   select_top_k ref_nth_element ref_sort 2
     [\<lparr>dist' = 1 / 2, idx = 0\<rparr>, \<lparr>dist' = 0, idx = 1\<rparr>, \<lparr>dist' = 1, idx = 2\<rparr>] =
   Inr (2, [\<lparr>dist' = 0, idx = 1\<rparr>, \<lparr>dist' = 1 / 2, idx = 0\<rparr>, \<lparr>dist' = 1, idx = 2\<rparr>]) \<and>
   (\<exists>nbrs'. select_top_k ref_nth_element ref_sort 2
        [\<lparr>dist' = 1 / 2, idx = 0\<rparr>, \<lparr>dist' = 0, idx = 1\<rparr>, \<lparr>dist' = 1, idx = 2\<rparr>] = Inr (2, nbrs') \<and>
      sorted (map dist' (take 2 nbrs')) \<and>
      mset (map dist' (take 2 nbrs')) = {#0, 1 / 2#})"
proof -
  let ?nbrs = "[\<lparr>dist' = 1 / 2, idx = 0\<rparr>, \<lparr>dist' = 0, idx = 1\<rparr>, \<lparr>dist' = 1, idx = 2\<rparr>]"
  have len: "length ?nbrs < 2 ^ 31" by simp
  have K: "(1::int) \<le> 2" by simp
  have "\<exists>nbrs'. select_top_k ref_nth_element ref_sort 2 ?nbrs = Inr (2, nbrs') \<and>
      sorted (map dist' (take 2 nbrs')) \<and>
      mset (map dist' (take 2 nbrs')) = {#0, 1 / 2#}"
    using select_top_k_correct[OF ref_nth_element_ok ref_sort_ok K len]
    by (auto simp add: numeral_2_eq_2)
  then show ?thesis
    using ref_nth_element_ok ref_sort_ok select_top_k_example by simp
qed

text \<open>
  Claim C4, as stated, fails when a sum of metrics leaves the range of \<^verbatim>\<open>long long\<close>:
  with \<open>K = 2\<close> and two selected Records of \<open>2^62\<close> views each, the sum wraps to
  \<open>-2^63\<close> and the reported average is \<open>-2^62\<close>, where the floor of the true average
  is \<open>2^62\<close>.
\<close>

theorem aggregate_floor_average_counterexample:
  "aggregate 2 [\<lparr>dist' = 0, idx = 0\<rparr>, \<lparr>dist' = 0, idx = 1\<rparr>]
     [\<lparr>id' = ''1'', tags = {|''a''|}, views = 4611686018427387904, likes = 0, comments = 0\<rparr>,
      \<lparr>id' = ''2'', tags = {|''a''|}, views = 4611686018427387904, likes = 0, comments = 0\<rparr>]
   = Inr (13835058055282163712, 0, 0) \<and>
   sint (13835058055282163712 :: int64) = - 4611686018427387904 \<and>
   (sint (4611686018427387904 :: int64) + sint (4611686018427387904 :: int64)) div 2
     = 4611686018427387904"
  by (simp add: aggregate_def elem_at_def div_K_def signed_divide_int_def upt_0_2)

text \<open>
  Claim C4, amended. For every selection of \<open>K \<ge> 1\<close> Records with non-negative metrics
  whose three sums each stay below \<open>2^63\<close>, the aggregation returns, for views, likes
  and comments independently, the floor of the sum over the \<open>K\<close> selected Records
  divided by \<open>K\<close>, unweighted; and for \<open>K = 1\<close> it returns the three metrics of the
  single selected Record unchanged.
\<close>

theorem aggregate_floor_average:
  assumes "1 \<le> K" and "nat K \<le> length nbrs"
    and "\<forall>n \<in> set (take (nat K) nbrs). idx n < length videos"
    and "\<forall>r \<in> set (selected K nbrs videos).
           0 \<le> sint (views r) \<and> 0 \<le> sint (likes r) \<and> 0 \<le> sint (comments r)"
    and "sum_list (map (\<lambda>r. sint (views r)) (selected K nbrs videos)) < 2 ^ 63"
    and "sum_list (map (\<lambda>r. sint (likes r)) (selected K nbrs videos)) < 2 ^ 63"
    and "sum_list (map (\<lambda>r. sint (comments r)) (selected K nbrs videos)) < 2 ^ 63"
  shows "\<exists>pViews pLikes pComments.
           aggregate K nbrs videos = Inr (pViews, pLikes, pComments) \<and>
           sint pViews = sum_list (map (\<lambda>r. sint (views r)) (selected K nbrs videos)) div K \<and>
           sint pLikes = sum_list (map (\<lambda>r. sint (likes r)) (selected K nbrs videos)) div K \<and>
           sint pComments = sum_list (map (\<lambda>r. sint (comments r)) (selected K nbrs videos)) div K \<and>
           aggregate 1 nbrs videos =
             Inr (views (videos ! idx (nbrs ! 0)), likes (videos ! idx (nbrs ! 0)),
                  comments (videos ! idx (nbrs ! 0)))"
proof -
  let ?sel = "selected K nbrs videos"
  have K0: "0 \<le> K" "0 < K" "K \<noteq> 0" using assms(1) by simp_all
  have loop: "aggregate_loop [0..<nat K] nbrs videos (0, 0, 0) =
         Inr (sum_list (map views ?sel), sum_list (map likes ?sel), sum_list (map comments ?sel))"
    using K0(1) assms(2,3) by (rule aggregate_sums)
  have agg: "aggregate K nbrs videos =
      Inr (div_K (sum_list (map views ?sel)) K, div_K (sum_list (map likes ?sel)) K,
           div_K (sum_list (map comments ?sel)) K)"
    using K0(3) by (simp add: aggregate_def loop)
  have v: "sint (div_K (sum_list (map views ?sel)) K) =
           sum_list (map (\<lambda>r. sint (views r)) ?sel) div K"
    using sint_sum_field[of ?sel views] assms(4,5) K0(2) by (simp add: div_K_nonneg)
  have l: "sint (div_K (sum_list (map likes ?sel)) K) =
           sum_list (map (\<lambda>r. sint (likes r)) ?sel) div K"
    using sint_sum_field[of ?sel likes] assms(4,6) K0(2) by (simp add: div_K_nonneg)
  have c: "sint (div_K (sum_list (map comments ?sel)) K) =
           sum_list (map (\<lambda>r. sint (comments r)) ?sel) div K"
    using sint_sum_field[of ?sel comments] assms(4,7) K0(2) by (simp add: div_K_nonneg)
  have pos: "0 < length nbrs" using assms(1,2) by linarith
  then have "nbrs ! 0 \<in> set (take (nat K) nbrs)"
    using assms(1) by (cases nbrs) (auto simp add: take_Cons')
  then have i0: "idx (nbrs ! 0) < length videos" using assms(3) by blast
  have one: "aggregate 1 nbrs videos =
             Inr (views (videos ! idx (nbrs ! 0)), likes (videos ! idx (nbrs ! 0)),
                  comments (videos ! idx (nbrs ! 0)))"
    using pos i0 by (simp add: aggregate_def elem_at_ok div_K_1)
  show ?thesis using agg v l c one by blast
qed

theorem aggregate_floor_average_witness:
  "(1::int) \<le> 2 \<and>
   (\<exists>pViews pLikes pComments.
      aggregate 2 [\<lparr>dist' = 0, idx = 1\<rparr>, \<lparr>dist' = 1 / 2, idx = 0\<rparr>, \<lparr>dist' = 1, idx = 2\<rparr>]
        [\<lparr>id' = ''A'', tags = {|''cat'', ''dance''|}, views = 100, likes = 10, comments = 1\<rparr>,
         \<lparr>id' = ''B'', tags = {|''cat''|}, views = 200, likes = 20, comments = 2\<rparr>,
         \<lparr>id' = ''C'', tags = {|''dog''|}, views = 50, likes = 5, comments = 0\<rparr>]
      = Inr (pViews, pLikes, pComments) \<and>
      sint pViews = 150 \<and> sint pLikes = 15 \<and> sint pComments = 1)"
proof -
  let ?nbrs = "[\<lparr>dist' = 0, idx = 1\<rparr>, \<lparr>dist' = 1 / 2, idx = 0\<rparr>, \<lparr>dist' = 1, idx = 2\<rparr>]"
  let ?videos = "[\<lparr>id' = ''A'', tags = {|''cat'', ''dance''|}, views = 100, likes = 10, comments = 1\<rparr>,
         \<lparr>id' = ''B'', tags = {|''cat''|}, views = 200, likes = 20, comments = 2\<rparr>,
         \<lparr>id' = ''C'', tags = {|''dog''|}, views = 50, likes = 5, comments = 0\<rparr>]"
  have sel: "selected 2 ?nbrs ?videos =
    [\<lparr>id' = ''B'', tags = {|''cat''|}, views = 200, likes = 20, comments = 2\<rparr>,
     \<lparr>id' = ''A'', tags = {|''cat'', ''dance''|}, views = 100, likes = 10, comments = 1\<rparr>]"
    by (simp add: selected_def numeral_2_eq_2)
  have h1: "(1::int) \<le> 2" by simp
  have h2: "nat 2 \<le> length ?nbrs" by simp
  have h3: "\<forall>n \<in> set (take (nat 2) ?nbrs). idx n < length ?videos"
    by (simp add: numeral_2_eq_2)
  have h4: "\<forall>r \<in> set (selected 2 ?nbrs ?videos).
           0 \<le> sint (views r) \<and> 0 \<le> sint (likes r) \<and> 0 \<le> sint (comments r)"
    unfolding sel by simp
  have h5: "sum_list (map (\<lambda>r. sint (views r)) (selected 2 ?nbrs ?videos)) < 2 ^ 63"
    unfolding sel by simp
  have h6: "sum_list (map (\<lambda>r. sint (likes r)) (selected 2 ?nbrs ?videos)) < 2 ^ 63"
    unfolding sel by simp
  have h7: "sum_list (map (\<lambda>r. sint (comments r)) (selected 2 ?nbrs ?videos)) < 2 ^ 63"
    unfolding sel by simp
  show ?thesis
    using aggregate_floor_average[OF h1 h2 h3 h4 h5 h6 h7] h1 unfolding sel
    by auto
qed


text \<open>
  Claim C5. On the three Records A (tags cat, dance; 100, 10, 1), B (tags cat; 200, 20, 2)
  and C (tags dog; 50, 5, 0), with query tag set \<open>{cat}\<close> and \<open>K = 2\<close>, the distances
  are A = 1/2, B = 0, C = 1; the two selected neighbours are B and then A, whatever
  conforming library algorithms are used; and the prediction is views 150, likes 15,
  comments 1. The same report comes out of \<open>main\<close> on a CSV file that holds the three
  rows below a header line.
\<close>

theorem scenario_cat_K2:
  assumes "nth_element_ok nth_element" and "sort_ok sort'"
  shows "compute_nbrs {|''cat''|} example_videos =
           [\<lparr>dist' = 1 / 2, idx = 0\<rparr>, \<lparr>dist' = 0, idx = 1\<rparr>, \<lparr>dist' = 1, idx = 2\<rparr>] \<and>
         (\<exists>rest. select_top_k nth_element sort' 2 (compute_nbrs {|''cat''|} example_videos) =
            Inr (2, [\<lparr>dist' = 0, idx = 1\<rparr>, \<lparr>dist' = 1 / 2, idx = 0\<rparr>] @ rest)) \<and>
         steps_3_to_5 nth_element sort' 2 {|''cat''|} example_videos =
           \<lparr>status = Return 0, cerr = [],
            cout = [Predicted 150 15 1, Top 2, Neighbour 1 ''B'' 0 200 20 2,
                    Neighbour 2 ''A'' (1 / 2) 100 10 1]\<rparr> \<and>
         load (File example_csv) = Inr example_videos \<and>
         main nth_element sort' 4 2 (Some (File example_csv)) ''cat'' =
           \<lparr>status = Return 0, cerr = [],
            cout = [Predicted 150 15 1, Top 2, Neighbour 1 ''B'' 0 200 20 2,
                    Neighbour 2 ''A'' (1 / 2) 100 10 1]\<rparr>"
proof -
  have "example_videos \<noteq> []" by (simp add: example_videos_def)
  then have "main nth_element sort' 4 2 (Some (File example_csv)) ''cat'' =
        steps_3_to_5 nth_element sort' 2 {|''cat''|} example_videos"
    by (simp add: main_def load_example split_cat Let_def)
  then show ?thesis
    using nbrs_example top2_example[OF assms] steps_3_to_5_example[OF assms] load_example
    by simp
qed

theorem scenario_cat_K2_witness:
  "nth_element_ok ref_nth_element \<and> sort_ok ref_sort \<and>
   main ref_nth_element ref_sort 4 2 (Some (File example_csv)) ''cat'' =
     \<lparr>status = Return 0, cerr = [],
      cout = [Predicted 150 15 1, Top 2, Neighbour 1 ''B'' 0 200 20 2,
              Neighbour 2 ''A'' (1 / 2) 100 10 1]\<rparr>"
  using scenario_cat_K2[OF ref_nth_element_ok ref_sort_ok] ref_nth_element_ok ref_sort_ok
  by simp

text \<open>
  Claim C9. Every Neighbor built by the distance step stores an index below the number
  of loaded Records; the clamped \<open>K\<close> never exceeds \<open>min(K, N)\<close>; after the selection
  every position \<open>i\<close> below the clamped \<open>K\<close> lies inside the Neighbor vector and the
  index stored there lies inside the Record vector; hence no run ends in an
  out-of-range lookup.
\<close>

theorem lookups_in_bounds:
  assumes "nth_element_ok nth_element" and "sort_ok sort'"
  shows "(\<forall>n \<in> set (compute_nbrs qTags videos). idx n < length videos) \<and>
         clamp_K K (length (compute_nbrs qTags videos)) \<le> min K (int (length videos)) \<and>
         (\<forall>K' nbrs'. select_top_k nth_element sort' K (compute_nbrs qTags videos) = Inr (K', nbrs') \<longrightarrow>
            (\<forall>i < nat K'. i < length nbrs' \<and> idx (nbrs' ! i) < length videos)) \<and>
         status (steps_3_to_5 nth_element sort' K qTags videos) \<noteq> Undefined Index_out_of_range \<and>
         status (main nth_element sort' argc K dataset query) \<noteq> Undefined Index_out_of_range"
proof (intro conjI allI impI)
  show "\<forall>n \<in> set (compute_nbrs qTags videos). idx n < length videos"
    by (simp add: idx_compute_nbrs)
  show "clamp_K K (length (compute_nbrs qTags videos)) \<le> min K (int (length videos))"
    using clamp_K_le[of K "length videos"] by simp
  show "status (steps_3_to_5 nth_element sort' K qTags videos) \<noteq> Undefined Index_out_of_range"
    using assms by (rule steps_3_to_5_status(1))
  show "status (main nth_element sort' argc K dataset query) \<noteq> Undefined Index_out_of_range"
    using assms by (rule main_status(1))
next
  fix K' nbrs' i
  assume "select_top_k nth_element sort' K (compute_nbrs qTags videos) = Inr (K', nbrs')"
    and "i < nat K'"
  then show "i < length nbrs'" and "idx (nbrs' ! i) < length videos"
    using selected_in_bounds[OF assms, of K qTags videos K' nbrs'] by simp_all
qed

theorem lookups_in_bounds_witness:
  "nth_element_ok ref_nth_element \<and> sort_ok ref_sort \<and>
   select_top_k ref_nth_element ref_sort 2 (compute_nbrs {|''cat''|} example_videos) =
     Inr (2, [\<lparr>dist' = 0, idx = 1\<rparr>, \<lparr>dist' = 1 / 2, idx = 0\<rparr>, \<lparr>dist' = 1, idx = 2\<rparr>]) \<and>
   map idx (compute_nbrs {|''cat''|} example_videos) = [0, 1, 2] \<and>
   length example_videos = 3 \<and>
   status (main ref_nth_element ref_sort 4 2 (Some (File example_csv)) ''cat'')
     \<noteq> Undefined Index_out_of_range"
proof -
  have sel: "select_top_k ref_nth_element ref_sort 2 (compute_nbrs {|''cat''|} example_videos) =
     Inr (2, [\<lparr>dist' = 0, idx = 1\<rparr>, \<lparr>dist' = 1 / 2, idx = 0\<rparr>, \<lparr>dist' = 1, idx = 2\<rparr>])"
    unfolding nbrs_example by (rule select_top_k_example)
  have len: "length example_videos = 3" by (simp add: example_videos_def)
  show ?thesis
    using lookups_in_bounds[OF ref_nth_element_ok ref_sort_ok, of "{|''cat''|}" example_videos 2 4
        "Some (File example_csv)" "''cat''"]
      ref_nth_element_ok ref_sort_ok sel len
    by (simp add: nbrs_example)
qed


text \<open>
  Claim C7 does not hold on the code for a dataset that opens but cannot be
  repositioned. The dataset is a pipe that carries the two rows \<^verbatim>\<open>7,a,1,2,3\<close> and
  \<^verbatim>\<open>8,b,4,5,6\<close>: it opens, both rows pass the two filters of the row loop, and there is
  no header. The result of \<^verbatim>\<open>fin.seekg(0)\<close>, meant to rewind to the first data row, is
  not checked; the row loop reads nothing and the run ends with
  \<^verbatim>\<open>Dataset is empty or malformed.\<close> and exit status 1, a \<open>LoadError\<close> on a dataset with
  two usable records. The same bytes in a regular file give a report.
\<close>

theorem load_error_despite_usable_rows:
  "filter usable (getlines (''7,a,1,2,3'' @ [CHR 0x0A] @ ''8,b,4,5,6'' @ [CHR 0x0A]) CHR 0x0A) =
     [''7,a,1,2,3'', ''8,b,4,5,6''] \<and>
   main nth_element sort' 4 1 (Some (Pipe (''7,a,1,2,3'' @ [CHR 0x0A] @ ''8,b,4,5,6'' @ [CHR 0x0A]))) ''a'' =
     \<lparr>status = Return 1, cerr = [Dataset_empty_or_malformed], cout = []\<rparr> \<and>
   error_class_of Dataset_empty_or_malformed = Some LoadError \<and>
   main ref_nth_element ref_sort 4 1
     (Some (File (''7,a,1,2,3'' @ [CHR 0x0A] @ ''8,b,4,5,6'' @ [CHR 0x0A]))) ''a'' =
     \<lparr>status = Return 0, cerr = [],
      cout = [Predicted 1 2 3, Top 1, Neighbour 1 ''7'' 0 1 2 3]\<rparr>"
proof -
  let ?c = "''7,a,1,2,3'' @ [CHR 0x0A] @ ''8,b,4,5,6'' @ [CHR 0x0A]"
  have u: "filter usable (getlines ?c CHR 0x0A) = [''7,a,1,2,3'', ''8,b,4,5,6'']"
    by code_simp
  have d: "data_lines (Pipe ?c) = []" by code_simp
  have p: "main nth_element sort' 4 1 (Some (Pipe ?c)) ''a'' =
     \<lparr>status = Return 1, cerr = [Dataset_empty_or_malformed], cout = []\<rparr>"
    using d by (simp add: main_def load_def)
  have f: "main ref_nth_element ref_sort 4 1 (Some (File ?c)) ''a'' =
     \<lparr>status = Return 0, cerr = [],
      cout = [Predicted 1 2 3, Top 1, Neighbour 1 ''7'' 0 1 2 3]\<rparr>"
    by code_simp
  show ?thesis using u p f by simp
qed

text \<open>
  Claim C8 does not hold on the code for a dataset that opens but cannot be
  repositioned. The first line \<^verbatim>\<open>7,a,1,2,3\<close> of the pipe starts with a digit, so it is
  not a header and the code calls \<^verbatim>\<open>fin.seekg(0)\<close> to process it as a data row
  (the comment there: the first line is already a data row). The call fails, its result
  is not checked, and the row loop sees no line: the first row and the row after it
  are lost. The same bytes in a regular file load both rows.
\<close>

theorem header_detection_loses_rows:
  "getlines (''7,a,1,2,3'' @ [CHR 0x0A] @ ''8,b,4,5,6'' @ [CHR 0x0A]) CHR 0x0A =
     [''7,a,1,2,3'', ''8,b,4,5,6''] \<and>
   isdigit (hd ''7,a,1,2,3'') \<and>
   data_lines (Pipe (''7,a,1,2,3'' @ [CHR 0x0A] @ ''8,b,4,5,6'' @ [CHR 0x0A])) = [] \<and>
   load (Pipe (''7,a,1,2,3'' @ [CHR 0x0A] @ ''8,b,4,5,6'' @ [CHR 0x0A])) = Inr [] \<and>
   data_lines (File (''7,a,1,2,3'' @ [CHR 0x0A] @ ''8,b,4,5,6'' @ [CHR 0x0A])) =
     [''7,a,1,2,3'', ''8,b,4,5,6''] \<and>
   load (File (''7,a,1,2,3'' @ [CHR 0x0A] @ ''8,b,4,5,6'' @ [CHR 0x0A])) =
     Inr [\<lparr>id' = ''7'', tags = {|''a''|}, views = 1, likes = 2, comments = 3\<rparr>,
          \<lparr>id' = ''8'', tags = {|''b''|}, views = 4, likes = 5, comments = 6\<rparr>]"
proof -
  let ?c = "''7,a,1,2,3'' @ [CHR 0x0A] @ ''8,b,4,5,6'' @ [CHR 0x0A]"
  have g: "getlines ?c CHR 0x0A = [''7,a,1,2,3'', ''8,b,4,5,6'']" by code_simp
  have i: "isdigit (hd ''7,a,1,2,3'')" by code_simp
  have dp: "data_lines (Pipe ?c) = []" by code_simp
  have lp: "load (Pipe ?c) = Inr []" using dp by (simp add: load_def)
  have df: "data_lines (File ?c) = [''7,a,1,2,3'', ''8,b,4,5,6'']" by code_simp
  have lf: "load (File ?c) =
     Inr [\<lparr>id' = ''7'', tags = {|''a''|}, views = 1, likes = 2, comments = 3\<rparr>,
          \<lparr>id' = ''8'', tags = {|''b''|}, views = 4, likes = 5, comments = 6\<rparr>]"
    by code_simp
  show ?thesis using g i dp lp df lf by simp
qed

text \<open>
  Claim C10. Every Record that the loader produces has a non-empty identifier and was
  built from a row with at least five non-empty comma-separated fields: the fields of a
  row are its comma-separated pieces with the empty ones removed, in order, so an empty
  piece makes the later fields move one position to the left.
\<close>

theorem loaded_records_built_from_fields:
  assumes "load src = Inr videos" and "r \<in> set videos"
  shows "id' r \<noteq> [] \<and>
         (\<exists>line \<in> set (data_lines src).
            built_from r line \<and>
            split line CHR '','' = filter (\<lambda>field. field \<noteq> []) (getlines line CHR '','') \<and>
            5 \<le> length (filter (\<lambda>field. field \<noteq> []) (getlines line CHR '','')))"
proof -
  from load_loop_built[OF assms(1)[unfolded load_def] assms(2)]
  obtain line where line: "line \<in> set (data_lines src)" and b: "built_from r line"
    by auto
  have "5 \<le> length (split line CHR '','')" using b by (simp add: built_from_def Let_def)
  then have "5 \<le> length (filter (\<lambda>field. field \<noteq> []) (getlines line CHR '',''))"
    by (simp only: split_filter)
  then show ?thesis
    using line b built_from_id[OF b] split_filter[of line "CHR '',''"] by blast
qed

theorem loaded_records_built_from_fields_witness:
  "load (File ''1,,a;b,10,20,30,40'') =
     Inr [\<lparr>id' = ''1'', tags = {|''a'', ''b''|}, views = 10, likes = 20, comments = 30\<rparr>] \<and>
   getlines ''1,,a;b,10,20,30,40'' CHR '','' = [''1'', [], ''a;b'', ''10'', ''20'', ''30'', ''40''] \<and>
   id' \<lparr>id' = ''1'', tags = {|''a'', ''b''|}, views = 10, likes = 20, comments = 30\<rparr> \<noteq> [] \<and>
   load (File ''1,,x,2,3'') = Inr []"
proof -
  let ?r = "\<lparr>id' = ''1'', tags = {|''a'', ''b''|}, views = 10, likes = 20, comments = 30\<rparr>"
  have l: "load (File ''1,,a;b,10,20,30,40'') = Inr [?r]" by code_simp
  have g: "getlines ''1,,a;b,10,20,30,40'' CHR '','' = [''1'', [], ''a;b'', ''10'', ''20'', ''30'', ''40'']"
    by code_simp
  have m: "?r \<in> set [?r]" by simp
  have e: "load (File ''1,,x,2,3'') = Inr []" by code_simp
  show ?thesis
    using loaded_records_built_from_fields[OF l m] l g e by simp
qed

text \<open>
  Claim C6, as stated, fails: the dataset is opened and loaded before the query is
  split. With \<open>K = 1\<close>, a dataset that cannot be opened and the query \<open>;\<close> (no tag
  left after splitting), the run ends with the message for a dataset that cannot be
  opened, a \<open>LoadError\<close>, not with \<open>InvalidArgument\<close>.
\<close>

theorem invalid_argument_counterexample:
  "split '';'' CHR '';'' = [] \<and>
   status (main ref_nth_element ref_sort 4 1 None '';'') = Return 1 \<and>
   map error_class_of (cerr (main ref_nth_element ref_sort 4 1 None '';'')) = [Some LoadError]"
proof -
  have "split '';'' CHR '';'' = []" by code_simp
  then show ?thesis by (simp add: main_def)
qed

text \<open>
  Claim C6, amended. With library algorithms that meet their postconditions, no run
  that ends unsuccessfully has written any report content. Every invocation with
  \<open>K \<le> 0\<close>, or with a query that holds no tag after splitting, ends with exit status
  1 or by an exception nobody catches, and without report content; with three arguments
  it fails as \<open>InvalidArgument\<close> and exit status 1 whenever \<open>K \<le> 0\<close>, and, for
  \<open>K > 0\<close> and an empty query, whenever the dataset was opened and loaded with at
  least one Record.
\<close>

theorem invalid_argument_no_report:
  assumes "nth_element_ok nth_element" and "sort_ok sort'"
  shows "(status (main nth_element sort' argc K dataset query) \<noteq> Return 0 \<longrightarrow>
            cout (main nth_element sort' argc K dataset query) = []) \<and>
         (K \<le> 0 \<or> split query CHR '';'' = [] \<longrightarrow>
            (status (main nth_element sort' argc K dataset query) = Return 1 \<or>
             (\<exists>e. status (main nth_element sort' argc K dataset query) = Terminate e)) \<and>
            cout (main nth_element sort' argc K dataset query) = [] \<and>
            (argc = 4 \<and> K \<le> 0 \<longrightarrow>
               status (main nth_element sort' argc K dataset query) = Return 1 \<and>
               map error_class_of (cerr (main nth_element sort' argc K dataset query)) =
                 [Some InvalidArgument]) \<and>
            (argc = 4 \<and> 0 < K \<and>
             (case dataset of None \<Rightarrow> False
              | Some src \<Rightarrow> (case load src of Inl e \<Rightarrow> False | Inr videos \<Rightarrow> videos \<noteq> []))
             \<longrightarrow>
               status (main nth_element sort' argc K dataset query) = Return 1 \<and>
               map error_class_of (cerr (main nth_element sort' argc K dataset query)) =
                 [Some InvalidArgument]))"
proof (intro conjI impI)
  show "cout (main nth_element sort' argc K dataset query) = []"
    if "status (main nth_element sort' argc K dataset query) \<noteq> Return 0"
    using assms that by (rule main_status(2))
next
  assume bad: "K \<le> 0 \<or> split query CHR '';'' = []"
  show fail: "status (main nth_element sort' argc K dataset query) = Return 1 \<or>
             (\<exists>e. status (main nth_element sort' argc K dataset query) = Terminate e)"
    using bad by (rule main_bad_arguments_status)
  then have "status (main nth_element sort' argc K dataset query) \<noteq> Return 0"
    by auto
  with assms show "cout (main nth_element sort' argc K dataset query) = []"
    by (rule main_status(2))
  show "status (main nth_element sort' argc K dataset query) = Return 1"
    if "argc = 4 \<and> K \<le> 0"
    using that by (simp add: main_def)
  show "map error_class_of (cerr (main nth_element sort' argc K dataset query)) =
          [Some InvalidArgument]"
    if "argc = 4 \<and> K \<le> 0"
    using that by (simp add: main_def)
  show "status (main nth_element sort' argc K dataset query) = Return 1"
    if "argc = 4 \<and> 0 < K \<and>
        (case dataset of None \<Rightarrow> False
         | Some src \<Rightarrow> (case load src of Inl e \<Rightarrow> False | Inr videos \<Rightarrow> videos \<noteq> []))"
    using that bad by (auto simp add: main_def Let_def split: option.splits sum.splits)
  show "map error_class_of (cerr (main nth_element sort' argc K dataset query)) =
          [Some InvalidArgument]"
    if "argc = 4 \<and> 0 < K \<and>
        (case dataset of None \<Rightarrow> False
         | Some src \<Rightarrow> (case load src of Inl e \<Rightarrow> False | Inr videos \<Rightarrow> videos \<noteq> []))"
    using that bad by (auto simp add: main_def Let_def split: option.splits sum.splits)
qed

theorem invalid_argument_no_report_witness:
  "nth_element_ok ref_nth_element \<and> sort_ok ref_sort \<and>
   status (main ref_nth_element ref_sort 4 0 (Some (File example_csv)) ''cat'') = Return 1 \<and>
   map error_class_of (cerr (main ref_nth_element ref_sort 4 0 (Some (File example_csv)) ''cat'')) =
     [Some InvalidArgument] \<and>
   cout (main ref_nth_element ref_sort 4 0 (Some (File example_csv)) ''cat'') = [] \<and>
   split '';;'' CHR '';'' = [] \<and>
   status (main ref_nth_element ref_sort 4 2 (Some (File example_csv)) '';;'') = Return 1 \<and>
   map error_class_of (cerr (main ref_nth_element ref_sort 4 2 (Some (File example_csv)) '';;'')) =
     [Some InvalidArgument] \<and>
   cout (main ref_nth_element ref_sort 4 2 (Some (File example_csv)) '';;'') = []"
proof -
  have s: "split '';;'' CHR '';'' = []" by code_simp
  have ne: "example_videos \<noteq> []" by (simp add: example_videos_def)
  show ?thesis
    using invalid_argument_no_report[OF ref_nth_element_ok ref_sort_ok, of 4 0 "Some (File example_csv)" "''cat''"]
      invalid_argument_no_report[OF ref_nth_element_ok ref_sort_ok, of 4 2 "Some (File example_csv)" "'';;''"]
      ref_nth_element_ok ref_sort_ok s ne
    by (simp add: load_example)
qed


end
